theory Spec2Isabelle
  imports Complex_Main "HOL-Library.Char_ord" "HOL-Library.List_Lexorder" "HOL-Library.Sublist"
    "HOL-Library.Signed_Division"
begin

section \<open>JayceON: data model\<close>

text \<open>
  The embedding follows \<^verbatim>\<open>jayceon.c\<close>. A C string is the list of the bytes
  found from the cursor on; the terminating NUL is what \<open>peek\<close> reads once the
  list is exhausted. The parsers test for NUL before every advance of the cursor,
  so the cursor never moves past the terminator.

  A \<^verbatim>\<open>double\<close> is modelled as a real number: rounding is not modelled. The
  control flow of the parser depends on a \<^verbatim>\<open>double\<close> only through the test
  \<^verbatim>\<open>val == 0.0\<close> on a sum of decimal digits, which holds of the real sum
  exactly when it holds of the rounded sum.

  \<^verbatim>\<open>malloc\<close> and \<^verbatim>\<open>realloc\<close> are taken to succeed. The build is the default
  one: comments are skipped (\<^verbatim>\<open>JAYCEON_NO_COMMENT_SUPPORT\<close> is not defined) and the
  three growth increments are 16.
\<close>

datatype Type = TYPE_NULL | TYPE_BOOL | TYPE_NUMBER | TYPE_STRING | TYPE_ARRAY | TYPE_OBJECT

text \<open>\<^verbatim>\<open>struct Pair_\<close>, a key with its value.\<close>

datatype 'v Pair_t = Pair_t (key: string) (val: 'v)

text \<open>
  \<^verbatim>\<open>struct JYArray_\<close> and \<^verbatim>\<open>struct JYObject_\<close>: the list holds the live slots
  \<^verbatim>\<open>[0, count)\<close> of the buffer, so \<^verbatim>\<open>count\<close> is its length; the slots
  \<^verbatim>\<open>[count, capacity)\<close> are allocated and uninitialised. The buffer pointer is
  \<^verbatim>\<open>NULL\<close> exactly when the capacity is 0: both are set together at the start of
  \<^verbatim>\<open>parse_array\<close> and \<^verbatim>\<open>parse_object\<close> and change together at each
  \<^verbatim>\<open>realloc\<close>.
\<close>

datatype JYValue =
    VNull
  | VBool (bool_of: int)
  | VNumber (number_of: real)
  | VString (string_of: string)
  | VArray (array_of: JYArray)
  | VObject (object_of: JYObject)
and JYArray = JYArray (vals: "JYValue list") (capacity: nat)
and JYObject = JYObject (pairs: "JYValue Pair_t list") (ocapacity: nat)

datatype JYDocument = JYDocument (root: JYObject)

fun type_of :: "JYValue \<Rightarrow> Type" where
  "type_of VNull = TYPE_NULL"
| "type_of (VBool _) = TYPE_BOOL"
| "type_of (VNumber _) = TYPE_NUMBER"
| "type_of (VString _) = TYPE_STRING"
| "type_of (VArray _) = TYPE_ARRAY"
| "type_of (VObject _) = TYPE_OBJECT"

definition count :: "JYArray \<Rightarrow> nat" where
  "count a = length (vals a)"

definition ocount :: "JYObject \<Rightarrow> nat" where
  "ocount obj = length (pairs obj)"

definition JAYCEON_STRING_GROWTH :: nat where "JAYCEON_STRING_GROWTH = 16"
definition JAYCEON_ARRAY_GROWTH :: nat where "JAYCEON_ARRAY_GROWTH = 16"
definition JAYCEON_OBJECT_GROWTH :: nat where "JAYCEON_OBJECT_GROWTH = 16"

text \<open>
  A \<^verbatim>\<open>JYValue *\<close> returned by the navigation functions: \<open>NULL\<close>, or the
  address of slot \<open>k\<close> of the container's buffer.
\<close>

datatype slot_ptr = NULL | Slot nat

section \<open>The cursor\<close>

fun peek :: "string \<Rightarrow> char" where
  "peek [] = CHR 0x00"
| "peek (c # _) = c"

text \<open>
  \<^verbatim>\<open>isspace\<close> in the C locale; a byte above 0x7F is not a space.
\<close>

definition isspace :: "char \<Rightarrow> bool" where
  "isspace c \<longleftrightarrow> c = CHR '' '' \<or> c = CHR 0x09 \<or> c = CHR 0x0A \<or> c = CHR 0x0B
     \<or> c = CHR 0x0C \<or> c = CHR 0x0D"

text \<open>The inner loop of a \<^verbatim>\<open>//\<close> comment: up to the newline or the terminator.\<close>

fun skip_line :: "string \<Rightarrow> string" where
  "skip_line [] = []"
| "skip_line (c # cs) = (if c \<noteq> CHR 0x00 \<and> c \<noteq> CHR 0x0A then skip_line cs else c # cs)"

text \<open>The inner loop of a block comment: past the first \<^verbatim>\<open>*/\<close>, or to the terminator.\<close>

fun skip_block :: "string \<Rightarrow> string" where
  "skip_block [] = []"
| "skip_block (c # cs) =
     (if c = CHR 0x00 then c # cs
      else if c = CHR ''*'' \<and> peek cs = CHR ''/'' then tl cs
      else skip_block cs)"

lemma length_skip_line: "length (skip_line s) \<le> length s"
  by (induction s) auto

lemma length_skip_block: "length (skip_block s) \<le> length s"
  by (induction s) (auto simp: le_SucI)

function parse_space :: "string \<Rightarrow> string" where
  "parse_space s =
     (if peek s = CHR 0x00 then s
      else if \<not> isspace (peek s) then
        (if peek s = CHR ''/'' \<and> peek (tl s) = CHR ''/'' then
           parse_space (skip_line (tl (tl s)))
         else if peek s = CHR ''/'' \<and> peek (tl s) = CHR ''*'' then
           parse_space (skip_block (tl (tl s)))
         else s)
      else parse_space (tl s))"
  by pat_completeness auto
termination
proof (relation "measure length")
  show "wf (measure length)" by simp
next
  fix s :: string
  assume "peek s \<noteq> CHR 0x00"
  then have ne: "s \<noteq> []" by (cases s) auto
  {
    assume "peek s = CHR ''/'' \<and> peek (tl s) = CHR ''/''"
    then have "tl s \<noteq> []" by (cases "tl s") auto
    with ne have "length (tl (tl s)) < length s" by (cases s) (auto simp: less_Suc_eq_le)
    with length_skip_line [of "tl (tl s)"]
    show "(skip_line (tl (tl s)), s) \<in> measure length" by simp
  }
  {
    assume "peek s = CHR ''/'' \<and> peek (tl s) = CHR ''*''"
    then have "tl s \<noteq> []" by (cases "tl s") auto
    with ne have "length (tl (tl s)) < length s" by (cases s) (auto simp: less_Suc_eq_le)
    with length_skip_block [of "tl (tl s)"]
    show "(skip_block (tl (tl s)), s) \<in> measure length" by simp
  }
  from ne show "(tl s, s) \<in> measure length" by (cases s) auto
qed

declare parse_space.simps [simp del]

section \<open>Scalar parsers\<close>

text \<open>
  A parser returns \<open>None\<close> for \<^verbatim>\<open>NULL\<close>, and otherwise the advanced cursor with
  what it wrote through its \<^verbatim>\<open>out\<close> parameter.

  \<open>match_word\<close> is the byte-by-byte comparison with a literal that
  \<^verbatim>\<open>parse_null\<close> and \<^verbatim>\<open>parse_bool\<close> run.
\<close>

fun match_word :: "string \<Rightarrow> string \<Rightarrow> string option" where
  "match_word [] s = Some s"
| "match_word (w # ws) s = (if peek s \<noteq> w then None else match_word ws (tl s))"

definition parse_null :: "string \<Rightarrow> string option" where
  "parse_null s = match_word ''null'' s"

definition parse_bool :: "string \<Rightarrow> (string \<times> int) option" where
  "parse_bool s =
     (let word = (if peek s = CHR ''t'' then ''true'' else ''false'');
          v = (if peek word = CHR ''t'' then 1 else 0)
      in case match_word word s of None \<Rightarrow> None | Some s' \<Rightarrow> Some (s', v))"

text \<open>
  \<^verbatim>\<open>int\<close> is 32 bits wide. Signed overflow is undefined in ISO C; the model
  gives it the two's-complement wrap-around of the usual targets.
\<close>

definition to_int32 :: "int \<Rightarrow> int" where
  "to_int32 x = (x + 2 ^ 31) mod 2 ^ 32 - 2 ^ 31"

definition abs_int32 :: "int \<Rightarrow> int" where
  "abs_int32 y = (if y < 0 then to_int32 (- y) else y)"

text \<open>
  The two loops of \<^verbatim>\<open>pow10\<close>, from the loop counter \<open>i\<close>: \<^verbatim>\<open>x *= 10.0\<close> while
  \<^verbatim>\<open>i < y\<close>, then \<^verbatim>\<open>x *= 0.1\<close> while \<^verbatim>\<open>i < -y\<close>. The constant \<^verbatim>\<open>0.1\<close> is
  the real number 1/10 here.
\<close>

function pow10_up :: "int \<Rightarrow> int \<Rightarrow> real \<Rightarrow> real" where
  "pow10_up i y x = (if i < y then pow10_up (i + 1) y (x * 10) else x)"
  by pat_completeness auto
termination
  by (relation "measure (\<lambda>(i, y, x). nat (y - i))") auto

function pow10_down :: "int \<Rightarrow> int \<Rightarrow> real \<Rightarrow> real" where
  "pow10_down i y x = (if i < to_int32 (- y) then pow10_down (i + 1) y (x * (1 / 10)) else x)"
  by pat_completeness auto
termination
  by (relation "measure (\<lambda>(i, y, x). nat (to_int32 (- y) - i))") auto

declare pow10_up.simps [simp del] pow10_down.simps [simp del]

definition pow10 :: "real \<Rightarrow> int \<Rightarrow> real" where
  "pow10 x y = (if abs_int32 y > 30 then 0 else pow10_down 0 y (pow10_up 0 y x))"

text \<open>
  The digit tests \<^verbatim>\<open>*string >= '0' && *string <= '9'\<close>, the digit value
  \<^verbatim>\<open>*string - '0'\<close>, and the three digit loops of \<^verbatim>\<open>parse_number\<close>: integer part,
  fraction (with the running factor \<^verbatim>\<open>frac\<close>) and exponent (in \<^verbatim>\<open>int\<close>).
\<close>

definition is_digit :: "char \<Rightarrow> bool" where
  "is_digit c \<longleftrightarrow> CHR ''0'' \<le> c \<and> c \<le> CHR ''9''"

definition digit_val :: "char \<Rightarrow> int" where
  "digit_val c = int (of_char c) - int (of_char (CHR ''0''))"

fun int_digits :: "string \<Rightarrow> real \<Rightarrow> string \<times> real" where
  "int_digits [] v = ([], v)"
| "int_digits (c # cs) v =
     (if is_digit c then int_digits cs (v * 10 + real_of_int (digit_val c)) else (c # cs, v))"

fun frac_digits :: "string \<Rightarrow> real \<Rightarrow> real \<Rightarrow> string \<times> real" where
  "frac_digits [] fr v = ([], v)"
| "frac_digits (c # cs) fr v =
     (if is_digit c
      then frac_digits cs (fr * (1 / 10)) (v + real_of_int (digit_val c) * (fr * (1 / 10)))
      else (c # cs, v))"

fun exp_digits :: "string \<Rightarrow> int \<Rightarrow> string \<times> int" where
  "exp_digits [] e = ([], e)"
| "exp_digits (c # cs) e =
     (if is_digit c
      then exp_digits cs
             (to_int32 (to_int32 (to_int32 (e * 10) + int (of_char c)) - int (of_char (CHR ''0''))))
      else (c # cs, e))"

text \<open>
  \<^verbatim>\<open>parse_number\<close> in its three parts: the integer part, the optional fraction and
  the optional exponent, each from the cursor and the value so far.
\<close>

definition number_int_part :: "string \<Rightarrow> (string \<times> real) option" where
  "number_int_part s =
     (if peek s = CHR ''0'' then Some (tl s, 0)
      else (case int_digits s 0 of (s', v) \<Rightarrow> if v = 0 then None else Some (s', v)))"

definition number_frac_part :: "string \<Rightarrow> real \<Rightarrow> (string \<times> real) option" where
  "number_frac_part s v =
     (if peek s = CHR ''.'' then
        (if \<not> is_digit (peek (tl s)) then None else Some (frac_digits (tl s) 1 v))
      else Some (s, v))"

definition number_exp_part :: "string \<Rightarrow> real \<Rightarrow> (string \<times> real) option" where
  "number_exp_part s v =
     (if peek s = CHR ''e'' \<or> peek s = CHR ''E'' then
        (let s1 = tl s in
         if peek s1 \<noteq> CHR ''+'' \<and> peek s1 \<noteq> CHR ''-'' then None
         else if \<not> is_digit (peek (tl s1)) then None
         else (case exp_digits (tl s1) 0 of (s2, e) \<Rightarrow>
           Some (s2, pow10 v (if peek s1 = CHR ''-'' then to_int32 (e * (- 1)) else e))))
      else Some (s, v))"

definition parse_number :: "string \<Rightarrow> (string \<times> real) option" where
  "parse_number s0 =
     (let sign = (peek s0 = CHR ''-'');
          s1 = (if sign then tl s0 else s0)
      in case number_int_part s1 of
           None \<Rightarrow> None
         | Some (s2, v2) \<Rightarrow>
        (case number_frac_part s2 v2 of
           None \<Rightarrow> None
         | Some (s3, v3) \<Rightarrow>
        (case number_exp_part s3 v3 of
           None \<Rightarrow> None
         | Some (s4, v4) \<Rightarrow> Some (s4, if sign then v4 * (- 1) else v4))))"

section \<open>Strings\<close>

text \<open>
  The loop of \<^verbatim>\<open>parse_string\<close>, with the bytes stored so far. The buffer grows by
  \<^verbatim>\<open>JAYCEON_STRING_GROWTH\<close> whenever it is full; with \<^verbatim>\<open>realloc\<close> succeeding
  its capacity has no effect on the result and is left out.
\<close>

fun parse_string_loop :: "string \<Rightarrow> string \<Rightarrow> (string \<times> string) option" where
  "parse_string_loop [] buf = None"
| "parse_string_loop (c # cs) buf =
     (if c = CHR 0x22 then Some (cs, buf)
      else if c = CHR 0x0A \<or> c = CHR 0x00 then None
      else if c = CHR 0x5C then
        (case cs of
           [] \<Rightarrow> None
         | e # es \<Rightarrow>
             if e = CHR ''n'' then parse_string_loop es (buf @ [CHR 0x0A])
             else if e = CHR ''r'' then parse_string_loop es (buf @ [CHR 0x0D])
             else if e = CHR ''b'' then parse_string_loop es (buf @ [CHR 0x08])
             else if e = CHR ''f'' then parse_string_loop es (buf @ [CHR 0x0C])
             else if e = CHR ''t'' then parse_string_loop es (buf @ [CHR 0x09])
             else if e = CHR 0x22 \<or> e = CHR 0x5C \<or> e = CHR ''/'' then parse_string_loop es (buf @ [e])
             else None)
      else parse_string_loop cs (buf @ [c]))"

definition parse_string :: "string \<Rightarrow> (string \<times> string) option" where
  "parse_string s = (if peek s \<noteq> CHR 0x22 then None else parse_string_loop (tl s) [])"

section \<open>Arrays and objects\<close>

text \<open>
  \<^verbatim>\<open>strcmp\<close> on two keys, each the list of the bytes before its terminator. The C
  standard fixes the sign of the result only (that of the difference of the first
  two bytes that differ, read as \<^verbatim>\<open>unsigned char\<close>), and the callers test the
  sign only.
\<close>

fun strcmp :: "string \<Rightarrow> string \<Rightarrow> int" where
  "strcmp [] [] = 0"
| "strcmp [] (b # bs) = - 1"
| "strcmp (a # as) [] = 1"
| "strcmp (a # as) (b # bs) =
     (if a = b then strcmp as bs
      else if (of_char a :: nat) < of_char b then - 1 else 1)"

text \<open>
  A parser that recurses returns \<open>Fail\<close> for \<^verbatim>\<open>NULL\<close> and \<open>Ok\<close> with the
  advanced cursor and the value written through \<^verbatim>\<open>out\<close>. The recursion of the C
  code is bounded here by a counter: \<open>OutOfFuel\<close> says that the counter ran out
  before the C function would have returned.
\<close>

datatype 'a result = OutOfFuel | Fail | Ok string 'a

text \<open>The growth step and the store \<^verbatim>\<open>out->values[out->count++] = res\<close>.\<close>

definition array_push :: "JYArray \<Rightarrow> JYValue \<Rightarrow> JYArray" where
  "array_push out res =
     (let cap = (if count out = capacity out then capacity out + JAYCEON_ARRAY_GROWTH
                 else capacity out)
      in JYArray (vals out @ [res]) cap)"

lemma midpoint_bounds:
  fixes l r :: int
  assumes "l \<le> r"
  shows "l \<le> (l + r) sdiv 2" and "(l + r) sdiv 2 \<le> r"
  using assms by (auto simp: signed_divide_int_def sgn_if abs_if)

text \<open>
  The binary search of \<^verbatim>\<open>parse_object\<close>: \<open>None\<close> when an equal key is met, else
  the insertion point. The \<^verbatim>\<open>ptrdiff_t\<close> bounds are integers (a count stays far
  below the 63 bits of the type), and \<^verbatim>\<open>(l + r) / 2\<close> is the truncating division
  of C.
\<close>

function insert_search :: "JYValue Pair_t list \<Rightarrow> string \<Rightarrow> int \<Rightarrow> int \<Rightarrow> int option" where
  "insert_search ps k l r =
     (if l \<le> r then
        (let m = (l + r) sdiv 2; res = strcmp k (key (ps ! nat m))
         in if res > 0 then insert_search ps k (m + 1) r
            else if res < 0 then insert_search ps k l (m - 1)
            else None)
      else Some l)"
  by pat_completeness auto
termination
proof (relation "measure (\<lambda>(ps, k, l, r). nat (r - l + 1))")
  show "wf (measure (\<lambda>(ps, k, l, r). nat (r - l + 1)))" by simp
next
  fix ps :: "JYValue Pair_t list" and k :: string and l r m :: int and res :: int
  assume "l \<le> r" and m: "m = (l + r) sdiv 2"
  with midpoint_bounds [of l r] have "l \<le> m" "m \<le> r" by simp_all
  then show "((ps, k, m + 1, r), ps, k, l, r) \<in> measure (\<lambda>(ps, k, l, r). nat (r - l + 1))"
    by simp
  from \<open>l \<le> m\<close> \<open>m \<le> r\<close>
  show "((ps, k, l, m - 1), ps, k, l, r) \<in> measure (\<lambda>(ps, k, l, r). nat (r - l + 1))"
    by simp
qed

declare insert_search.simps [simp del]

text \<open>
  The growth step, the search, the \<^verbatim>\<open>memmove\<close> of the pairs from the insertion
  point on and the store of the new pair; \<open>None\<close> is the duplicate-key exit.
\<close>

definition object_insert :: "JYObject \<Rightarrow> string \<Rightarrow> JYValue \<Rightarrow> JYObject option" where
  "object_insert out k v =
     (let cap = (if ocount out = ocapacity out then ocapacity out + JAYCEON_OBJECT_GROWTH
                 else ocapacity out)
      in case insert_search (pairs out) k 0 (int (ocount out) - 1) of
           None \<Rightarrow> None
         | Some l \<Rightarrow>
             Some (JYObject (take (nat l) (pairs out) @ Pair_t k v # drop (nat l) (pairs out)) cap))"

text \<open>
  The five mutually recursive parts of the parser: \<^verbatim>\<open>parse_value\<close>,
  \<^verbatim>\<open>parse_array\<close> with its \<^verbatim>\<open>while\<close> loop, and \<^verbatim>\<open>parse_object\<close> with its
  \<^verbatim>\<open>while\<close> loop. The counter goes down by one where \<^verbatim>\<open>parse_value\<close> enters a
  container and at every turn of a loop. The loops carry the container built so far.
\<close>

function (sequential) parse_value :: "nat \<Rightarrow> string \<Rightarrow> JYValue result"
  and parse_array :: "nat \<Rightarrow> string \<Rightarrow> JYArray result"
  and parse_array_loop :: "nat \<Rightarrow> string \<Rightarrow> JYArray \<Rightarrow> JYArray result"
  and parse_object :: "nat \<Rightarrow> string \<Rightarrow> JYObject result"
  and parse_object_loop :: "nat \<Rightarrow> string \<Rightarrow> JYObject \<Rightarrow> JYObject result"
where
  "parse_value 0 s = OutOfFuel"
| "parse_value (Suc n) s =
     (case parse_null s of
        Some tmp \<Rightarrow> Ok tmp VNull
      | None \<Rightarrow>
     (case parse_bool s of
        Some (tmp, b) \<Rightarrow> Ok tmp (VBool b)
      | None \<Rightarrow>
     (case parse_number s of
        Some (tmp, d) \<Rightarrow> Ok tmp (VNumber d)
      | None \<Rightarrow>
     (case parse_string s of
        Some (tmp, str) \<Rightarrow> Ok tmp (VString str)
      | None \<Rightarrow>
     (case parse_array n s of
        OutOfFuel \<Rightarrow> OutOfFuel
      | Ok tmp a \<Rightarrow> Ok tmp (VArray a)
      | Fail \<Rightarrow>
     (case parse_object n s of
        OutOfFuel \<Rightarrow> OutOfFuel
      | Ok tmp obj \<Rightarrow> Ok tmp (VObject obj)
      | Fail \<Rightarrow> Fail))))))"
| "parse_array n s =
     (if peek s \<noteq> CHR ''['' then Fail
      else let s1 = parse_space (tl s)
           in if peek s1 = CHR 0x00 then Fail
              else parse_array_loop n s1 (JYArray [] 0))"
| "parse_array_loop 0 s out =
     (if peek s = CHR '']'' then Ok (tl s) out else OutOfFuel)"
| "parse_array_loop (Suc n) s out =
     (if peek s = CHR '']'' then Ok (tl s) out
      else (case parse_value (Suc n) s of
        OutOfFuel \<Rightarrow> OutOfFuel
      | Fail \<Rightarrow> Fail
      | Ok s1 res \<Rightarrow>
          (let out1 = array_push out res;
               s2 = parse_space s1
           in if peek s2 = CHR '','' then parse_array_loop n (parse_space (tl s2)) out1
              else if peek s2 \<noteq> CHR '']'' then Fail
              else parse_array_loop n (parse_space s2) out1)))"
| "parse_object n s =
     (if peek s \<noteq> CHR ''{'' then Fail
      else let s1 = parse_space (tl s)
           in if peek s1 = CHR 0x00 then Fail
              else parse_object_loop n s1 (JYObject [] 0))"
| "parse_object_loop 0 s out =
     (if peek s = CHR ''}'' then Ok (tl s) out else OutOfFuel)"
| "parse_object_loop (Suc n) s out =
     (if peek s = CHR ''}'' then Ok (tl s) out
      else (case parse_string s of
        None \<Rightarrow> Fail
      | Some (s1, k) \<Rightarrow>
          (let s2 = parse_space s1
           in if peek s2 \<noteq> CHR '':'' then Fail
              else (case parse_value (Suc n) (parse_space (tl s2)) of
                OutOfFuel \<Rightarrow> OutOfFuel
              | Fail \<Rightarrow> Fail
              | Ok s3 v \<Rightarrow>
                  (case object_insert out k v of
                     None \<Rightarrow> Fail
                   | Some out1 \<Rightarrow>
                       (let s4 = parse_space s3
                        in if peek s4 = CHR '','' then parse_object_loop n (parse_space (tl s4)) out1
                           else if peek s4 \<noteq> CHR ''}'' then Fail
                           else parse_object_loop n (parse_space s4) out1))))))"
  by pat_completeness auto
termination
  by (relation "measure (\<lambda>x. case x of
        Inl (Inl (n, s)) \<Rightarrow> 3 * n
      | Inl (Inr (n, s)) \<Rightarrow> 3 * n + 2
      | Inr (Inl (n, s, out)) \<Rightarrow> 3 * n + 1
      | Inr (Inr (Inl (n, s))) \<Rightarrow> 3 * n + 2
      | Inr (Inr (Inr (n, s, out))) \<Rightarrow> 3 * n + 1)") auto

declare parse_value.simps [simp del] parse_array.simps [simp del] parse_array_loop.simps [simp del]
  parse_object.simps [simp del] parse_object_loop.simps [simp del]

section \<open>The API\<close>

text \<open>
  \<^verbatim>\<open>jy_parse\<close> runs \<^verbatim>\<open>parse_object\<close> on the input and drops the cursor it
  returns. The counter is the length of the input, which always suffices
  (\<open>parse_object_enough_fuel\<close> below).
\<close>

definition jy_parse :: "string \<Rightarrow> JYDocument option" where
  "jy_parse string =
     (case parse_object (length string) string of
        Ok rest r \<Rightarrow> Some (JYDocument r)
      | Fail \<Rightarrow> None
      | OutOfFuel \<Rightarrow> None)"

definition jy_root :: "JYDocument \<Rightarrow> JYObject" where
  "jy_root doc = root doc"

function jy_index_s_loop :: "JYObject \<Rightarrow> string \<Rightarrow> int \<Rightarrow> int \<Rightarrow> slot_ptr" where
  "jy_index_s_loop obj k l r =
     (if l \<le> r then
        (let m = (l + r) sdiv 2; res = strcmp k (key (pairs obj ! nat m))
         in if res > 0 then jy_index_s_loop obj k (m + 1) r
            else if res < 0 then jy_index_s_loop obj k l (m - 1)
            else Slot (nat m))
      else NULL)"
  by pat_completeness auto
termination
proof (relation "measure (\<lambda>(obj, k, l, r). nat (r - l + 1))")
  show "wf (measure (\<lambda>(obj, k, l, r). nat (r - l + 1)))" by simp
next
  fix obj :: JYObject and k :: string and l r m :: int and res :: int
  assume "l \<le> r" and m: "m = (l + r) sdiv 2"
  with midpoint_bounds [of l r] have "l \<le> m" "m \<le> r" by simp_all
  then show "((obj, k, m + 1, r), obj, k, l, r) \<in> measure (\<lambda>(obj, k, l, r). nat (r - l + 1))"
    by simp
  from \<open>l \<le> m\<close> \<open>m \<le> r\<close>
  show "((obj, k, l, m - 1), obj, k, l, r) \<in> measure (\<lambda>(obj, k, l, r). nat (r - l + 1))"
    by simp
qed

declare jy_index_s_loop.simps [simp del]

definition jy_index_s :: "JYObject \<Rightarrow> string \<Rightarrow> slot_ptr" where
  "jy_index_s obj k = jy_index_s_loop obj k 0 (int (ocount obj) - 1)"

text \<open>
  \<^verbatim>\<open>&obj->values[key]\<close> is the buffer pointer advanced by \<open>key\<close> elements: with
  the buffer pointer \<^verbatim>\<open>NULL\<close> (capacity 0) and \<open>key = 0\<close> the address computed is
  \<^verbatim>\<open>NULL\<close> itself, and otherwise it is the address of slot \<open>key\<close>. No slot is
  read.
\<close>

definition slot_addr :: "nat \<Rightarrow> nat \<Rightarrow> slot_ptr" where
  "slot_addr cap k = (if cap = 0 \<and> k = 0 then NULL else Slot k)"

definition jy_index_i :: "JYArray \<Rightarrow> nat \<Rightarrow> slot_ptr" where
  "jy_index_i obj k = (if count obj < k then NULL else slot_addr (capacity obj) k)"

text \<open>
  The content of a \<^verbatim>\<open>const char *\<close> variable is \<open>Some\<close> key, or \<open>None\<close> when
  it is indeterminate. \<open>read_key\<close> is the read of \<^verbatim>\<open>obj->pairs[index].key\<close>: the
  key of a live slot, the indeterminate content of an allocated slot that is not live,
  and no result at all (\<open>None\<close>) for a slot outside the buffer, where the read is
  undefined; with the buffer pointer \<^verbatim>\<open>NULL\<close> it is a read through \<^verbatim>\<open>NULL\<close>.

  \<^verbatim>\<open>jy_index_i_obj\<close> returns its pointer together with the content of
  \<^verbatim>\<open>*out_key\<close> after the call, or \<open>None\<close> when its read has no result. The
  address \<^verbatim>\<open>&obj->pairs[index].value\<close> lies past the \<^verbatim>\<open>key\<close> field of the slot and
  is never \<^verbatim>\<open>NULL\<close>.
\<close>

definition read_key :: "JYObject \<Rightarrow> nat \<Rightarrow> string option option" where
  "read_key obj i =
     (if i < ocount obj then Some (Some (key (pairs obj ! i)))
      else if i < ocapacity obj then Some None
      else None)"

definition jy_index_i_obj ::
  "JYObject \<Rightarrow> nat \<Rightarrow> string option \<Rightarrow> (slot_ptr \<times> string option) option" where
  "jy_index_i_obj obj index out_key =
     (if ocount obj < index then Some (NULL, out_key)
      else (case read_key obj index of
              None \<Rightarrow> None
            | Some k \<Rightarrow> Some (Slot index, k)))"

text \<open>
  The type checks return the \<^verbatim>\<open>int\<close> result together with the content of
  \<^verbatim>\<open>*out\<close> after the call. A pointer stored through \<^verbatim>\<open>out\<close> is represented by
  \<open>Some\<close> of what it points to.
\<close>

definition jy_is_null :: "JYValue \<Rightarrow> int" where
  "jy_is_null v = (if type_of v = TYPE_NULL then 1 else 0)"

definition jy_is_bool :: "JYValue \<Rightarrow> int \<Rightarrow> int \<times> int" where
  "jy_is_bool v out = (if type_of v \<noteq> TYPE_BOOL then (0, out) else (1, bool_of v))"

definition jy_is_number :: "JYValue \<Rightarrow> real \<Rightarrow> int \<times> real" where
  "jy_is_number v out = (if type_of v \<noteq> TYPE_NUMBER then (0, out) else (1, number_of v))"

definition jy_is_string :: "JYValue \<Rightarrow> string option \<Rightarrow> int \<times> string option" where
  "jy_is_string v out = (if type_of v \<noteq> TYPE_STRING then (0, out) else (1, Some (string_of v)))"

definition jy_is_array :: "JYValue \<Rightarrow> JYArray option \<Rightarrow> int \<times> JYArray option" where
  "jy_is_array v out = (if type_of v \<noteq> TYPE_ARRAY then (0, out) else (1, Some (array_of v)))"

definition jy_is_object :: "JYValue \<Rightarrow> JYObject option \<Rightarrow> int \<times> JYObject option" where
  "jy_is_object v out = (if type_of v \<noteq> TYPE_OBJECT then (0, out) else (1, Some (object_of v)))"

text \<open>The number that a run of decimal digits denotes.\<close>

definition decimal :: "string \<Rightarrow> int" where
  "decimal ds = foldl (\<lambda>a c. a * 10 + digit_val c) 0 ds"

text \<open>
  The invariant of an object: the keys of neighbouring pairs compare strictly
  increasing under \<^verbatim>\<open>strcmp\<close>.
\<close>

definition keys_sorted :: "JYObject \<Rightarrow> bool" where
  "keys_sorted obj \<longleftrightarrow>
     (\<forall>i \<in> {0 ..< ocount obj - 1}. strcmp (key (pairs obj ! i)) (key (pairs obj ! (i + 1))) < 0)"

text \<open>The invariant, for every object inside a value.\<close>

primrec value_sorted :: "JYValue \<Rightarrow> bool"
  and array_sorted :: "JYArray \<Rightarrow> bool"
  and object_sorted :: "JYObject \<Rightarrow> bool"
where
  "value_sorted VNull = True"
| "value_sorted (VBool b) = True"
| "value_sorted (VNumber d) = True"
| "value_sorted (VString str) = True"
| "value_sorted (VArray a) = array_sorted a"
| "value_sorted (VObject obj) = object_sorted obj"
| "array_sorted (JYArray vs cap) = list_all id (map value_sorted vs)"
| "object_sorted (JYObject ps cap) =
     (keys_sorted (JYObject ps cap) \<and> list_all val (map (map_Pair_t value_sorted) ps))"


text \<open>
  Two runs of a parser that differ in the counter only: the second returns what the
  first returns, unless the first ran out.
\<close>

definition fuel_le :: "'a result \<Rightarrow> 'a result \<Rightarrow> bool" where
  "fuel_le r r' \<longleftrightarrow> r = OutOfFuel \<or> r' = r"

section \<open>The counter does not change a result\<close>

lemma fuel_le_refl: "fuel_le r r"
  by (simp add: fuel_le_def)

lemma value_fuel_step:
  assumes "\<And>s. fuel_le (parse_array n s) (parse_array m s)"
    and "\<And>s. fuel_le (parse_object n s) (parse_object m s)"
  shows "fuel_le (parse_value (Suc n) s) (parse_value (Suc m) s)"
  using assms(1) [of s] assms(2) [of s]
  by (auto simp: parse_value.simps fuel_le_def split: option.splits result.splits)

lemma array_loop_fuel_step:
  assumes "\<And>s. fuel_le (parse_value (Suc n) s) (parse_value (Suc m) s)"
    and "\<And>s out. fuel_le (parse_array_loop n s out) (parse_array_loop m s out)"
  shows "fuel_le (parse_array_loop (Suc n) s out) (parse_array_loop (Suc m) s out)"
proof (cases "parse_value (Suc n) s")
  case OutOfFuel
  then show ?thesis by (simp add: parse_array_loop.simps fuel_le_def)
next
  case Fail
  with assms(1) [of s] show ?thesis by (simp add: parse_array_loop.simps fuel_le_def)
next
  case (Ok s1 res)
  with assms(1) [of s] have "parse_value (Suc m) s = Ok s1 res" by (simp add: fuel_le_def)
  with Ok assms(2) show ?thesis by (simp add: parse_array_loop.simps Let_def fuel_le_refl)
qed

lemma object_loop_fuel_step:
  assumes "\<And>s. fuel_le (parse_value (Suc n) s) (parse_value (Suc m) s)"
    and "\<And>s out. fuel_le (parse_object_loop n s out) (parse_object_loop m s out)"
  shows "fuel_le (parse_object_loop (Suc n) s out) (parse_object_loop (Suc m) s out)"
proof (cases "peek s = CHR ''}''")
  case True
  then show ?thesis by (simp add: parse_object_loop.simps fuel_le_refl)
next
  case close: False
  show ?thesis
  proof (cases "parse_string s")
    case None
    with close show ?thesis by (simp add: parse_object_loop.simps fuel_le_refl)
  next
    case (Some p)
    obtain s1 k where p: "p = (s1, k)" by (cases p)
    show ?thesis
    proof (cases "parse_value (Suc n) (parse_space (tl (parse_space s1)))")
      case OutOfFuel
      with close Some p show ?thesis by (simp add: parse_object_loop.simps fuel_le_def Let_def)
    next
      case Fail
      with assms(1) [of "parse_space (tl (parse_space s1))"] close Some p
      show ?thesis by (simp add: parse_object_loop.simps fuel_le_def Let_def)
    next
      case (Ok s3 v)
      with assms(1) [of "parse_space (tl (parse_space s1))"]
      have "parse_value (Suc m) (parse_space (tl (parse_space s1))) = Ok s3 v"
        by (simp add: fuel_le_def)
      with Ok close Some p assms(2) show ?thesis
        by (simp add: parse_object_loop.simps Let_def fuel_le_refl split: option.splits)
    qed
  qed
qed

lemma loop_fuel_zero:
  "fuel_le (parse_array_loop 0 s a) (parse_array_loop m s a)"
  "fuel_le (parse_object_loop 0 s obj) (parse_object_loop m s obj)"
  by (cases m; simp add: parse_array_loop.simps parse_object_loop.simps fuel_le_def)+

lemma fuel_mono_value_loops:
  "n \<le> m \<Longrightarrow>
     (\<forall>s. fuel_le (parse_value n s) (parse_value m s)) \<and>
     (\<forall>s out. fuel_le (parse_array_loop n s out) (parse_array_loop m s out)) \<and>
     (\<forall>s out. fuel_le (parse_object_loop n s out) (parse_object_loop m s out))"
proof (induction n arbitrary: m)
  case 0
  have "fuel_le (parse_value 0 s) (parse_value m s)" for s
    by (simp add: parse_value.simps fuel_le_def)
  with loop_fuel_zero show ?case by blast
next
  case (Suc n)
  then obtain m' where m: "m = Suc m'" and le: "n \<le> m'" by (cases m) auto
  from Suc.IH [OF le] have
    al: "\<And>s out. fuel_le (parse_array_loop n s out) (parse_array_loop m' s out)" and
    ol: "\<And>s out. fuel_le (parse_object_loop n s out) (parse_object_loop m' s out)"
    by simp_all
  have a: "fuel_le (parse_array n s) (parse_array m' s)" for s
    using al by (simp add: parse_array.simps Let_def fuel_le_refl)
  have ob: "fuel_le (parse_object n s) (parse_object m' s)" for s
    using ol by (simp add: parse_object.simps Let_def fuel_le_refl)
  have v: "fuel_le (parse_value (Suc n) s) (parse_value (Suc m') s)" for s
    by (rule value_fuel_step) (rule a ob)+
  show ?case unfolding m
    using v array_loop_fuel_step [OF v al] object_loop_fuel_step [OF v ol] by blast
qed

lemma parse_value_fuel_mono:
  "parse_value n s \<noteq> OutOfFuel \<Longrightarrow> n \<le> m \<Longrightarrow> parse_value m s = parse_value n s"
  using fuel_mono_value_loops [of n m] by (auto simp: fuel_le_def)

lemma parse_array_fuel_mono:
  assumes "parse_array n s \<noteq> OutOfFuel" and "n \<le> m"
  shows "parse_array m s = parse_array n s"
proof -
  from fuel_mono_value_loops [OF assms(2)]
  have "fuel_le (parse_array_loop n (parse_space (tl s)) (JYArray [] 0))
          (parse_array_loop m (parse_space (tl s)) (JYArray [] 0))" by blast
  with assms(1) show ?thesis
    by (auto simp: fuel_le_def parse_array.simps Let_def split: if_splits)
qed

lemma parse_object_fuel_mono:
  assumes "parse_object n s \<noteq> OutOfFuel" and "n \<le> m"
  shows "parse_object m s = parse_object n s"
proof -
  from fuel_mono_value_loops [OF assms(2)]
  have "fuel_le (parse_object_loop n (parse_space (tl s)) (JYObject [] 0))
          (parse_object_loop m (parse_space (tl s)) (JYObject [] 0))" by blast
  with assms(1) show ?thesis
    by (auto simp: fuel_le_def parse_object.simps Let_def split: if_splits)
qed


section \<open>Every parser consumes input, and the length of the input is enough\<close>

lemma length_parse_space: "length (parse_space s) \<le> length s"
proof (induction s rule: parse_space.induct)
  case (1 s)
  show ?case
  proof (cases "peek s = CHR 0x00")
    case True
    then show ?thesis by (subst parse_space.simps) simp
  next
    case nz: False
    show ?thesis
    proof (cases "isspace (peek s)")
      case True
      with nz 1(3) have "length (parse_space (tl s)) \<le> length (tl s)" by simp
      with nz True show ?thesis by (subst parse_space.simps) (simp add: le_diff_conv)
    next
      case ns: False
      consider (line) "peek s = CHR ''/'' \<and> peek (tl s) = CHR ''/''"
        | (block) "\<not> (peek s = CHR ''/'' \<and> peek (tl s) = CHR ''/'')"
            "peek s = CHR ''/'' \<and> peek (tl s) = CHR ''*''"
        | (other) "\<not> (peek s = CHR ''/'' \<and> peek (tl s) = CHR ''/'')"
            "\<not> (peek s = CHR ''/'' \<and> peek (tl s) = CHR ''*'')"
        by blast
      then show ?thesis
      proof cases
        case line
        with nz ns 1(1) have "length (parse_space (skip_line (tl (tl s)))) \<le> length (skip_line (tl (tl s)))"
          by simp
        also have "\<dots> \<le> length (tl (tl s))" by (rule length_skip_line)
        also have "\<dots> \<le> length s" by simp
        finally show ?thesis using nz ns line by (subst parse_space.simps) simp
      next
        case block
        with nz ns 1(2) have "length (parse_space (skip_block (tl (tl s)))) \<le> length (skip_block (tl (tl s)))"
          by simp
        also have "\<dots> \<le> length (tl (tl s))" by (rule length_skip_block)
        also have "\<dots> \<le> length s" by simp
        finally show ?thesis using nz ns block by (subst parse_space.simps) simp
      next
        case other
        with nz ns show ?thesis by (subst parse_space.simps) auto
      qed
    qed
  qed
qed

lemma peek_nonempty: "peek s \<noteq> CHR 0x00 \<Longrightarrow> s \<noteq> [] \<and> length (tl s) < length s"
  by (cases s) auto

lemma length_match_word:
  "CHR 0x00 \<notin> set w \<Longrightarrow> match_word w s = Some s' \<Longrightarrow> length s = length w + length s'"
proof (induction w arbitrary: s)
  case Nil
  then show ?case by simp
next
  case (Cons c w)
  then have "peek s = c" "c \<noteq> CHR 0x00" "match_word w (tl s) = Some s'"
    by (auto split: if_splits)
  with Cons.IH [of "tl s"] Cons.prems(1) peek_nonempty [of s] show ?case by auto
qed

lemma parse_null_consumes: "parse_null s = Some r \<Longrightarrow> length r < length s"
  using length_match_word [of "''null''" s r] by (simp add: parse_null_def)

lemma parse_bool_consumes: "parse_bool s = Some (r, b) \<Longrightarrow> length r < length s"
  using length_match_word [of "''true''" s r] length_match_word [of "''false''" s r]
  by (auto simp: parse_bool_def Let_def split: if_splits option.splits)

lemma int_digits_length:
  "int_digits s v = (s', v') \<Longrightarrow> 0 \<le> v \<Longrightarrow>
     length s' \<le> length s \<and> (length s' = length s \<longrightarrow> v' = v) \<and> v \<le> v'"
proof (induction s v rule: int_digits.induct)
  case (1 v)
  then show ?case by simp
next
  case (2 c cs v)
  show ?case
  proof (cases "is_digit c")
    case False
    with 2 show ?thesis by simp
  next
    case True
    then have d: "0 \<le> digit_val c"
      by (simp add: is_digit_def digit_val_def less_eq_char_def)
    with 2(3) have nn: "0 \<le> v * 10 + real_of_int (digit_val c)" by simp
    from True 2(2) have "int_digits cs (v * 10 + real_of_int (digit_val c)) = (s', v')" by simp
    from 2(1) [OF True this nn] d 2(3) show ?thesis by auto
  qed
qed

lemma frac_digits_length: "frac_digits s f v = (s', v') \<Longrightarrow> length s' \<le> length s"
  by (induction s f v rule: frac_digits.induct) (auto split: if_splits simp: le_SucI)

lemma exp_digits_length: "exp_digits s e = (s', e') \<Longrightarrow> length s' \<le> length s"
  by (induction s e rule: exp_digits.induct) (auto split: if_splits simp: le_SucI)

lemma parse_string_loop_consumes:
  "parse_string_loop s buf = Some (r, str) \<Longrightarrow> length r < length s"
proof (induction s arbitrary: buf rule: length_induct)
  case (1 s)
  show ?case
  proof (cases s)
    case Nil
    with "1.prems" show ?thesis by simp
  next
    case (Cons c cs)
    show ?thesis
    proof (cases "c = CHR 0x5C")
      case False
      with Cons "1.prems" have "r = cs \<or> (\<exists>b. parse_string_loop cs b = Some (r, str))"
        by (simp split: if_splits) blast
      moreover have "length cs < length s" using Cons by simp
      ultimately have "length r \<le> length cs" using "1.IH" by (metis less_imp_le order_refl)
      with Cons show ?thesis by simp
    next
      case True
      with Cons "1.prems" obtain e es where cs: "cs = e # es"
        by (cases cs) auto
      with True Cons "1.prems" obtain b where "parse_string_loop es b = Some (r, str)"
        by (auto split: if_splits)
      moreover have "length es < length s" using Cons cs by simp
      ultimately have "length r < length es" using "1.IH" by blast
      with Cons cs show ?thesis by simp
    qed
  qed
qed

lemma parse_string_consumes: "parse_string s = Some (r, str) \<Longrightarrow> length r < length s"
  using parse_string_loop_consumes [of "tl s" "[]" r str]
  by (cases s) (auto simp: parse_string_def split: if_splits)


lemma number_int_part_consumes: "number_int_part s = Some (r, v) \<Longrightarrow> length r < length s"
proof (cases "peek s = CHR ''0''")
  case True
  moreover assume "number_int_part s = Some (r, v)"
  ultimately show ?thesis using peek_nonempty [of s] by (simp add: number_int_part_def)
next
  case False
  assume a: "number_int_part s = Some (r, v)"
  obtain s' v' where d: "int_digits s 0 = (s', v')" by (cases "int_digits s 0")
  with a False have "v' \<noteq> 0" "r = s'" by (auto simp: number_int_part_def split: if_splits)
  with int_digits_length [OF d] show ?thesis by force
qed

lemma number_frac_part_length: "number_frac_part s v = Some (r, v') \<Longrightarrow> length r \<le> length s"
  using frac_digits_length [of "tl s" 1 v r v']
  by (auto simp: number_frac_part_def split: if_splits intro: order_trans)

lemma number_exp_part_length: "number_exp_part s v = Some (r, v') \<Longrightarrow> length r \<le> length s"
proof -
  assume a: "number_exp_part s v = Some (r, v')"
  obtain s2 e where d: "exp_digits (tl (tl s)) 0 = (s2, e)" by (cases "exp_digits (tl (tl s)) 0")
  from exp_digits_length [OF d] have "length s2 \<le> length s" by simp
  with a d show ?thesis by (auto simp: number_exp_part_def Let_def split: if_splits)
qed

lemma parse_number_consumes:
  assumes "parse_number s = Some (r, v)"
  shows "length r < length s"
proof -
  define s1 where "s1 = (if peek s = CHR ''-'' then tl s else s)"
  have l1: "length s1 \<le> length s" by (simp add: s1_def)
  from assms obtain s2 v2 s3 v3 v4 where
    "number_int_part s1 = Some (s2, v2)" "number_frac_part s2 v2 = Some (s3, v3)"
    "number_exp_part s3 v3 = Some (r, v4)"
    by (auto simp: parse_number_def Let_def s1_def split: option.splits)
  with number_int_part_consumes [of s1 s2 v2] number_frac_part_length [of s2 v2 s3 v3]
    number_exp_part_length [of s3 v3 r v4] l1
  show ?thesis by simp
qed

lemma value_consumes_step:
  assumes "\<And>s r a. parse_array n s = Ok r a \<Longrightarrow> length r < length s"
    and "\<And>s r obj. parse_object n s = Ok r obj \<Longrightarrow> length r < length s"
    and "parse_value (Suc n) s = Ok r v"
  shows "length r < length s"
  using assms(3) assms(1) [of s r] assms(2) [of s r] parse_null_consumes [of s r]
    parse_bool_consumes [of s r] parse_number_consumes [of s r] parse_string_consumes [of s r]
  by (auto simp: parse_value.simps split: option.splits result.splits)

lemma array_loop_consumes_step:
  assumes "\<And>s r v. parse_value (Suc n) s = Ok r v \<Longrightarrow> length r < length s"
    and "\<And>s out r a. parse_array_loop n s out = Ok r a \<Longrightarrow> length r < length s"
    and "parse_array_loop (Suc n) s out = Ok r a"
  shows "length r < length s"
proof (cases "peek s = CHR '']''")
  case True
  with assms(3) peek_nonempty [of s] show ?thesis by (simp add: parse_array_loop.simps)
next
  case False
  with assms(3) obtain s1 res s' where
    v: "parse_value (Suc n) s = Ok s1 res" and
    s': "s' = parse_space (tl (parse_space s1)) \<or> s' = parse_space (parse_space s1)" and
    rec: "parse_array_loop n s' (array_push out res) = Ok r a"
    by (auto simp: parse_array_loop.simps Let_def split: result.splits if_splits)
  from s' have "length s' \<le> length s1"
    using length_parse_space [of "tl (parse_space s1)"] length_parse_space [of "parse_space s1"]
      length_parse_space [of s1] by auto
  with assms(1) [OF v] assms(2) [OF rec] show ?thesis by simp
qed

lemma object_loop_consumes_step:
  assumes "\<And>s r v. parse_value (Suc n) s = Ok r v \<Longrightarrow> length r < length s"
    and "\<And>s out r obj. parse_object_loop n s out = Ok r obj \<Longrightarrow> length r < length s"
    and "parse_object_loop (Suc n) s out = Ok r obj"
  shows "length r < length s"
proof (cases "peek s = CHR ''}''")
  case True
  with assms(3) peek_nonempty [of s] show ?thesis by (simp add: parse_object_loop.simps)
next
  case False
  with assms(3) obtain s1 k s3 v out1 s' where
    k: "parse_string s = Some (s1, k)" and
    v: "parse_value (Suc n) (parse_space (tl (parse_space s1))) = Ok s3 v" and
    s': "s' = parse_space (tl (parse_space s3)) \<or> s' = parse_space (parse_space s3)" and
    rec: "parse_object_loop n s' out1 = Ok r obj"
    by (auto simp: parse_object_loop.simps Let_def
        split: option.splits result.splits if_splits) blast+
  from s' have "length s' \<le> length s3"
    using length_parse_space [of "tl (parse_space s3)"] length_parse_space [of "parse_space s3"]
      length_parse_space [of s3] by auto
  moreover have "length (parse_space (tl (parse_space s1))) \<le> length s1"
    using length_parse_space [of "tl (parse_space s1)"] length_parse_space [of s1] by simp
  ultimately show ?thesis
    using assms(1) [OF v] assms(2) [OF rec] parse_string_consumes [OF k] by simp
qed

lemma consumes_value_loops:
  "(\<forall>s r v. parse_value n s = Ok r v \<longrightarrow> length r < length s) \<and>
   (\<forall>s out r a. parse_array_loop n s out = Ok r a \<longrightarrow> length r < length s) \<and>
   (\<forall>s out r obj. parse_object_loop n s out = Ok r obj \<longrightarrow> length r < length s)"
proof (induction n)
  case 0
  show ?case
    using peek_nonempty
    by (auto simp: parse_value.simps parse_array_loop.simps parse_object_loop.simps
        split: if_splits)
next
  case (Suc n)
  then have
    al: "\<And>s out r a. parse_array_loop n s out = Ok r a \<Longrightarrow> length r < length s" and
    ol: "\<And>s out r obj. parse_object_loop n s out = Ok r obj \<Longrightarrow> length r < length s"
    by blast+
  have a: "length r < length s" if "parse_array n s = Ok r a" for s r a
    using that al [of "parse_space (tl s)" "JYArray [] 0" r a] length_parse_space [of "tl s"]
    by (auto simp: parse_array.simps Let_def split: if_splits)
  have ob: "length r < length s" if "parse_object n s = Ok r obj" for s r obj
    using that ol [of "parse_space (tl s)" "JYObject [] 0" r obj] length_parse_space [of "tl s"]
    by (auto simp: parse_object.simps Let_def split: if_splits)
  have v: "length r < length s" if "parse_value (Suc n) s = Ok r v" for s r v
    using a ob that by (rule value_consumes_step)
  have al': "length r < length s" if "parse_array_loop (Suc n) s out = Ok r a" for s out r a
    using v al that by (rule array_loop_consumes_step)
  have ol': "length r < length s" if "parse_object_loop (Suc n) s out = Ok r obj" for s out r obj
    using v ol that by (rule object_loop_consumes_step)
  from v al' ol' show ?case by blast
qed

lemma parse_value_consumes: "parse_value n s = Ok r v \<Longrightarrow> length r < length s"
  using consumes_value_loops [of n] by blast


lemma value_total_step:
  assumes "\<And>s. length s \<le> n \<Longrightarrow> parse_array n s \<noteq> OutOfFuel"
    and "\<And>s. length s \<le> n \<Longrightarrow> parse_object n s \<noteq> OutOfFuel"
    and "length s \<le> n"
  shows "parse_value (Suc n) s \<noteq> OutOfFuel"
  using assms(1) [of s] assms(2) [of s] assms(3)
  by (auto simp: parse_value.simps split: option.splits result.splits)

lemma array_loop_total_step:
  assumes v: "\<And>s. length s \<le> n \<Longrightarrow> parse_value (Suc n) s \<noteq> OutOfFuel"
    and al: "\<And>s out. length s < n \<Longrightarrow> parse_array_loop n s out \<noteq> OutOfFuel"
    and len: "length s \<le> n"
  shows "parse_array_loop (Suc n) s out \<noteq> OutOfFuel"
proof (cases "parse_value (Suc n) s")
  case OutOfFuel
  with v [OF len] show ?thesis by simp
next
  case Fail
  then show ?thesis by (simp add: parse_array_loop.simps)
next
  case (Ok s1 res)
  then have "length s1 < length s" by (rule parse_value_consumes)
  with len have "length (parse_space (tl (parse_space s1))) < n"
    and "length (parse_space (parse_space s1)) < n"
    using length_parse_space [of "tl (parse_space s1)"] length_parse_space [of "parse_space s1"]
      length_parse_space [of s1] by simp_all
  with Ok al show ?thesis by (simp add: parse_array_loop.simps Let_def)
qed

lemma object_loop_total_step:
  assumes v: "\<And>s. length s \<le> n \<Longrightarrow> parse_value (Suc n) s \<noteq> OutOfFuel"
    and ol: "\<And>s out. length s < n \<Longrightarrow> parse_object_loop n s out \<noteq> OutOfFuel"
    and len: "length s \<le> n"
  shows "parse_object_loop (Suc n) s out \<noteq> OutOfFuel"
proof (cases "parse_string s")
  case None
  then show ?thesis by (simp add: parse_object_loop.simps)
next
  case (Some p)
  obtain s1 k where p: "p = (s1, k)" by (cases p)
  with Some have s1: "length s1 < length s" by (simp add: parse_string_consumes)
  let ?s2 = "parse_space (tl (parse_space s1))"
  have l2: "length ?s2 \<le> length s1"
    using length_parse_space [of "tl (parse_space s1)"] length_parse_space [of s1] by simp
  show ?thesis
  proof (cases "parse_value (Suc n) ?s2")
    case OutOfFuel
    with v [of ?s2] l2 s1 len show ?thesis by simp
  next
    case Fail
    with Some p show ?thesis by (simp add: parse_object_loop.simps Let_def)
  next
    case (Ok s3 x)
    then have "length s3 < length ?s2" by (rule parse_value_consumes)
    with len l2 s1 have "length (parse_space (tl (parse_space s3))) < n"
      and "length (parse_space (parse_space s3)) < n"
      using length_parse_space [of "tl (parse_space s3)"] length_parse_space [of "parse_space s3"]
        length_parse_space [of s3] by simp_all
    with Ok Some p ol show ?thesis
      by (simp add: parse_object_loop.simps Let_def split: option.splits)
  qed
qed

lemma total_value_loops:
  "(\<forall>s. length s < n \<longrightarrow> parse_value n s \<noteq> OutOfFuel) \<and>
   (\<forall>s out. length s < n \<longrightarrow> parse_array_loop n s out \<noteq> OutOfFuel) \<and>
   (\<forall>s out. length s < n \<longrightarrow> parse_object_loop n s out \<noteq> OutOfFuel)"
proof (induction n)
  case 0
  show ?case by simp
next
  case (Suc n)
  then have
    al: "\<And>s out. length s < n \<Longrightarrow> parse_array_loop n s out \<noteq> OutOfFuel" and
    ol: "\<And>s out. length s < n \<Longrightarrow> parse_object_loop n s out \<noteq> OutOfFuel"
    by blast+
  have inner: "length (parse_space (tl s)) < n" if "length s \<le> n" "peek s \<noteq> CHR 0x00" for s
    using that peek_nonempty [of s] length_parse_space [of "tl s"] by simp
  have a: "parse_array n s \<noteq> OutOfFuel" if "length s \<le> n" for s
    using al [of "parse_space (tl s)" "JYArray [] 0"] inner [OF that]
    by (auto simp: parse_array.simps Let_def)
  have ob: "parse_object n s \<noteq> OutOfFuel" if "length s \<le> n" for s
    using ol [of "parse_space (tl s)" "JYObject [] 0"] inner [OF that]
    by (auto simp: parse_object.simps Let_def)
  have v: "parse_value (Suc n) s \<noteq> OutOfFuel" if "length s \<le> n" for s
    using a ob that by (rule value_total_step)
  have al': "parse_array_loop (Suc n) s out \<noteq> OutOfFuel" if "length s \<le> n" for s out
    using v al that by (rule array_loop_total_step)
  have ol': "parse_object_loop (Suc n) s out \<noteq> OutOfFuel" if "length s \<le> n" for s out
    using v ol that by (rule object_loop_total_step)
  from v al' ol' show ?case by (simp add: less_Suc_eq_le)
qed

lemma parse_object_enough_fuel: "length s \<le> n \<Longrightarrow> parse_object n s \<noteq> OutOfFuel"
proof -
  assume len: "length s \<le> n"
  have "length (parse_space (tl s)) < n" if "peek s \<noteq> CHR 0x00"
    using that len peek_nonempty [of s] length_parse_space [of "tl s"] by simp
  with total_value_loops [of n] show ?thesis
    by (auto simp: parse_object.simps Let_def)
qed

lemma parse_array_enough_fuel: "length s \<le> n \<Longrightarrow> parse_array n s \<noteq> OutOfFuel"
proof -
  assume len: "length s \<le> n"
  have "length (parse_space (tl s)) < n" if "peek s \<noteq> CHR 0x00"
    using that len peek_nonempty [of s] length_parse_space [of "tl s"] by simp
  with total_value_loops [of n] show ?thesis
    by (auto simp: parse_array.simps Let_def)
qed

lemma parse_value_enough_fuel: "length s < n \<Longrightarrow> parse_value n s \<noteq> OutOfFuel"
  using total_value_loops [of n] by blast

lemma jy_parse_eq:
  "jy_parse s = (case parse_object (length s + n) s of
      Ok rest r \<Rightarrow> Some (JYDocument r) | Fail \<Rightarrow> None | OutOfFuel \<Rightarrow> None)"
  using parse_object_fuel_mono [of "length s" s "length s + n"]
    parse_object_enough_fuel [of s "length s"]
  by (simp add: jy_parse_def)

lemma jy_parse_iff:
  "jy_parse s = Some doc \<longleftrightarrow> (\<exists>n rest. parse_object n s = Ok rest (root doc))"
proof
  assume "jy_parse s = Some doc"
  then have "\<exists>rest. parse_object (length s) s = Ok rest (root doc)"
    by (auto simp: jy_parse_def split: result.splits)
  then show "\<exists>n rest. parse_object n s = Ok rest (root doc)" by blast
next
  assume "\<exists>n rest. parse_object n s = Ok rest (root doc)"
  then obtain n rest where p: "parse_object n s = Ok rest (root doc)" by blast
  then have "parse_object (length s + n) s = Ok rest (root doc)"
    using parse_object_fuel_mono [of n s "length s + n"] by simp
  then show "jy_parse s = Some doc" by (simp add: jy_parse_eq [of s n])
qed

lemma jy_parse_None_iff:
  "jy_parse s = None \<longleftrightarrow> (\<exists>n. parse_object n s = Fail)"
proof
  assume "jy_parse s = None"
  with parse_object_enough_fuel [of s "length s"] show "\<exists>n. parse_object n s = Fail"
    by (cases "parse_object (length s) s") (auto simp: jy_parse_def)
next
  assume "\<exists>n. parse_object n s = Fail"
  then obtain n where p: "parse_object n s = Fail" by blast
  then have "parse_object (length s + n) s = Fail"
    using parse_object_fuel_mono [of n s "length s + n"] by simp
  then show "jy_parse s = None" by (simp add: jy_parse_eq [of s n])
qed


section \<open>The cursor returned is a suffix of the input\<close>

lemma suffix_skip_line: "suffix (skip_line s) s"
  by (induction s) (auto intro: suffix_ConsI)

lemma suffix_skip_block: "suffix (skip_block s) s"
proof (induction s)
  case Nil
  then show ?case by simp
next
  case (Cons c cs)
  have "suffix (tl cs) (c # cs)" by (intro suffix_ConsI) simp
  with Cons show ?case by (auto intro: suffix_ConsI)
qed

lemma suffix_tl_tl: "suffix r (tl (tl s)) \<Longrightarrow> suffix r s"
  by (meson suffix_order.trans suffix_tl)

lemma suffix_parse_space: "suffix (parse_space s) s"
proof (induction s rule: parse_space.induct)
  case (1 s)
  show ?case
  proof (cases "peek s = CHR 0x00")
    case True
    then show ?thesis by (subst parse_space.simps) simp
  next
    case nz: False
    show ?thesis
    proof (cases "isspace (peek s)")
      case True
      with nz 1(3) have "suffix (parse_space (tl s)) (tl s)" by simp
      then have "suffix (parse_space (tl s)) s" by (meson suffix_order.trans suffix_tl)
      with nz True show ?thesis by (subst parse_space.simps) simp
    next
      case ns: False
      consider (line) "peek s = CHR ''/'' \<and> peek (tl s) = CHR ''/''"
        | (block) "\<not> (peek s = CHR ''/'' \<and> peek (tl s) = CHR ''/'')"
            "peek s = CHR ''/'' \<and> peek (tl s) = CHR ''*''"
        | (other) "\<not> (peek s = CHR ''/'' \<and> peek (tl s) = CHR ''/'')"
            "\<not> (peek s = CHR ''/'' \<and> peek (tl s) = CHR ''*'')"
        by blast
      then show ?thesis
      proof cases
        case line
        with nz ns 1(1) have "suffix (parse_space (skip_line (tl (tl s)))) (skip_line (tl (tl s)))"
          by simp
        then have "suffix (parse_space (skip_line (tl (tl s)))) s"
          using suffix_skip_line [of "tl (tl s)"] by (meson suffix_order.trans suffix_tl_tl)
        then show ?thesis using nz ns line by (subst parse_space.simps) simp
      next
        case block
        with nz ns 1(2) have "suffix (parse_space (skip_block (tl (tl s)))) (skip_block (tl (tl s)))"
          by simp
        then have "suffix (parse_space (skip_block (tl (tl s)))) s"
          using suffix_skip_block [of "tl (tl s)"] by (meson suffix_order.trans suffix_tl_tl)
        then show ?thesis using nz ns block by (subst parse_space.simps) simp
      next
        case other
        with nz ns show ?thesis by (subst parse_space.simps) auto
      qed
    qed
  qed
qed

lemma suffix_match_word: "match_word w s = Some r \<Longrightarrow> suffix r s"
proof (induction w arbitrary: s)
  case Nil
  then show ?case by simp
next
  case (Cons c w)
  then have "match_word w (tl s) = Some r" by (auto split: if_splits)
  then have "suffix r (tl s)" by (rule Cons.IH)
  then show ?case by (meson suffix_order.trans suffix_tl)
qed

lemma suffix_int_digits: "int_digits s v = (r, v') \<Longrightarrow> suffix r s"
  by (induction s v rule: int_digits.induct) (auto split: if_splits intro: suffix_ConsI)

lemma suffix_frac_digits: "frac_digits s f v = (r, v') \<Longrightarrow> suffix r s"
  by (induction s f v rule: frac_digits.induct) (auto split: if_splits intro: suffix_ConsI)

lemma suffix_exp_digits: "exp_digits s e = (r, e') \<Longrightarrow> suffix r s"
  by (induction s e rule: exp_digits.induct) (auto split: if_splits intro: suffix_ConsI)

lemma suffix_parse_number:
  assumes "parse_number s = Some (r, v)"
  shows "suffix r s"
proof -
  define s1 where "s1 = (if peek s = CHR ''-'' then tl s else s)"
  have l1: "suffix s1 s" by (simp add: s1_def)
  from assms obtain s2 v2 s3 v3 v4 where
    i: "number_int_part s1 = Some (s2, v2)" and f: "number_frac_part s2 v2 = Some (s3, v3)" and
    e: "number_exp_part s3 v3 = Some (r, v4)"
    by (auto simp: parse_number_def Let_def s1_def split: option.splits)
  from i have "suffix s2 s1"
    using suffix_int_digits [of s1 0 s2 v2]
    by (auto simp: number_int_part_def split: if_splits prod.splits)
  moreover from f have "suffix s3 s2"
    using suffix_frac_digits [of "tl s2" 1 v2 s3 v3]
    by (auto simp: number_frac_part_def split: if_splits intro: suffix_order.trans [OF _ suffix_tl])
  moreover from e have "suffix r s3"
  proof -
    obtain s5 x where d: "exp_digits (tl (tl s3)) 0 = (s5, x)" by (cases "exp_digits (tl (tl s3)) 0")
    from suffix_exp_digits [OF d] have "suffix s5 s3" by (rule suffix_tl_tl)
    with e d show ?thesis by (auto simp: number_exp_part_def Let_def split: if_splits)
  qed
  ultimately show ?thesis using l1 by (meson suffix_order.trans)
qed

lemma suffix_parse_string_loop: "parse_string_loop s buf = Some (r, str) \<Longrightarrow> suffix r s"
proof (induction s arbitrary: buf rule: length_induct)
  case (1 s)
  show ?case
  proof (cases s)
    case Nil
    with "1.prems" show ?thesis by simp
  next
    case (Cons c cs)
    show ?thesis
    proof (cases "c = CHR 0x5C")
      case False
      with Cons "1.prems" have "r = cs \<or> (\<exists>b. parse_string_loop cs b = Some (r, str))"
        by (simp split: if_splits) blast
      moreover have "length cs < length s" using Cons by simp
      ultimately have "suffix r cs" using "1.IH" by auto
      with Cons show ?thesis by (simp add: suffix_ConsI)
    next
      case True
      with Cons "1.prems" obtain e es where cs: "cs = e # es"
        by (cases cs) auto
      with True Cons "1.prems" obtain b where "parse_string_loop es b = Some (r, str)"
        by (auto split: if_splits)
      moreover have "length es < length s" using Cons cs by simp
      ultimately have "suffix r es" using "1.IH" by blast
      with Cons cs show ?thesis by (simp add: suffix_ConsI)
    qed
  qed
qed

lemma suffix_parse_string: "parse_string s = Some (r, str) \<Longrightarrow> suffix r s"
  using suffix_parse_string_loop [of "tl s" "[]" r str]
  by (auto simp: parse_string_def split: if_splits intro: suffix_order.trans [OF _ suffix_tl])


lemma peek_Cons: "peek s = c \<Longrightarrow> c \<noteq> CHR 0x00 \<Longrightarrow> s = c # tl s"
  by (cases s) auto

lemma suffix_space_twice:
  "suffix (parse_space (tl (parse_space s))) s" "suffix (parse_space (parse_space s)) s"
proof -
  have 1: "suffix (parse_space s) s" by (rule suffix_parse_space)
  have "suffix (parse_space (tl (parse_space s))) (tl (parse_space s))" by (rule suffix_parse_space)
  also have "suffix (tl (parse_space s)) (parse_space s)" by simp
  finally show "suffix (parse_space (tl (parse_space s))) s" using 1 by (rule suffix_order.trans)
  have "suffix (parse_space (parse_space s)) (parse_space s)" by (rule suffix_parse_space)
  then show "suffix (parse_space (parse_space s)) s" using 1 by (rule suffix_order.trans)
qed

lemma suffix_peek: "peek s = c \<Longrightarrow> c \<noteq> CHR 0x00 \<Longrightarrow> suffix (c # tl s) s"
  using peek_Cons [of s c] by simp

lemma suffix_parse_null: "parse_null s = Some r \<Longrightarrow> suffix r s"
  unfolding parse_null_def by (rule suffix_match_word)

lemma suffix_parse_bool: "parse_bool s = Some (r, b) \<Longrightarrow> suffix r s"
proof -
  assume "parse_bool s = Some (r, b)"
  then have "match_word (if peek s = CHR ''t'' then ''true'' else ''false'') s = Some r"
    by (cases "match_word (if peek s = CHR ''t'' then ''true'' else ''false'') s")
      (simp_all add: parse_bool_def Let_def del: match_word.simps)
  then show ?thesis by (rule suffix_match_word)
qed

lemma suffix_value_step:
  assumes "\<And>s r a. parse_array n s = Ok r a \<Longrightarrow> suffix (CHR '']'' # r) s"
    and "\<And>s r obj. parse_object n s = Ok r obj \<Longrightarrow> suffix (CHR ''}'' # r) s"
    and "parse_value (Suc n) s = Ok r v"
  shows "suffix r s"
proof -
  from assms(3) consider "parse_null s = Some r" | b where "parse_bool s = Some (r, b)"
    | d where "parse_number s = Some (r, d)" | str where "parse_string s = Some (r, str)"
    | a where "parse_array n s = Ok r a" | obj where "parse_object n s = Ok r obj"
    by (auto simp: parse_value.simps split: option.splits result.splits)
  then show ?thesis
  proof cases
    case 1
    then show ?thesis by (rule suffix_parse_null)
  next
    case 2
    then show ?thesis by (rule suffix_parse_bool)
  next
    case 3
    then show ?thesis by (rule suffix_parse_number)
  next
    case 4
    then show ?thesis by (rule suffix_parse_string)
  next
    case 5
    then show ?thesis by (rule assms(1) [THEN suffix_ConsD])
  next
    case 6
    then show ?thesis by (rule assms(2) [THEN suffix_ConsD])
  qed
qed

lemma suffix_array_loop_step:
  assumes "\<And>s r v. parse_value (Suc n) s = Ok r v \<Longrightarrow> suffix r s"
    and "\<And>s out r a. parse_array_loop n s out = Ok r a \<Longrightarrow> suffix (CHR '']'' # r) s"
    and "parse_array_loop (Suc n) s out = Ok r a"
  shows "suffix (CHR '']'' # r) s"
proof (cases "peek s = CHR '']''")
  case True
  with assms(3) peek_Cons [of s "CHR '']''"] show ?thesis
    by (simp add: parse_array_loop.simps)
next
  case False
  with assms(3) obtain s1 res s' where
    v: "parse_value (Suc n) s = Ok s1 res" and
    s': "s' = parse_space (tl (parse_space s1)) \<or> s' = parse_space (parse_space s1)" and
    rec: "parse_array_loop n s' (array_push out res) = Ok r a"
    by (auto simp: parse_array_loop.simps Let_def split: result.splits if_splits)
  from s' have "suffix s' s1"
    using suffix_space_twice [of s1] by auto
  with assms(1) [OF v] assms(2) [OF rec] show ?thesis by (meson suffix_order.trans)
qed

lemma suffix_object_loop_step:
  assumes "\<And>s r v. parse_value (Suc n) s = Ok r v \<Longrightarrow> suffix r s"
    and "\<And>s out r obj. parse_object_loop n s out = Ok r obj \<Longrightarrow> suffix (CHR ''}'' # r) s"
    and "parse_object_loop (Suc n) s out = Ok r obj"
  shows "suffix (CHR ''}'' # r) s"
proof (cases "peek s = CHR ''}''")
  case True
  with assms(3) peek_Cons [of s "CHR ''}''"] show ?thesis
    by (simp add: parse_object_loop.simps)
next
  case False
  with assms(3) obtain s1 k s3 v out1 s' where
    k: "parse_string s = Some (s1, k)" and
    v: "parse_value (Suc n) (parse_space (tl (parse_space s1))) = Ok s3 v" and
    s': "s' = parse_space (tl (parse_space s3)) \<or> s' = parse_space (parse_space s3)" and
    rec: "parse_object_loop n s' out1 = Ok r obj"
    by (auto simp: parse_object_loop.simps Let_def
        split: option.splits result.splits if_splits) blast+
  from s' have "suffix s' s3"
    using suffix_space_twice [of s3] by auto
  moreover have "suffix (parse_space (tl (parse_space s1))) s1"
    by (rule suffix_space_twice)
  ultimately show ?thesis
    using assms(1) [OF v] assms(2) [OF rec] suffix_parse_string [OF k]
    by (meson suffix_order.trans)
qed

lemma suffix_value_loops:
  "(\<forall>s r v. parse_value n s = Ok r v \<longrightarrow> suffix r s) \<and>
   (\<forall>s out r a. parse_array_loop n s out = Ok r a \<longrightarrow> suffix (CHR '']'' # r) s) \<and>
   (\<forall>s out r obj. parse_object_loop n s out = Ok r obj \<longrightarrow> suffix (CHR ''}'' # r) s)"
proof (induction n)
  case 0
  show ?case
    by (auto simp: parse_value.simps parse_array_loop.simps parse_object_loop.simps
        split: if_splits intro: suffix_peek)
next
  case (Suc n)
  then have
    al: "\<And>s out r a. parse_array_loop n s out = Ok r a \<Longrightarrow> suffix (CHR '']'' # r) s" and
    ol: "\<And>s out r obj. parse_object_loop n s out = Ok r obj \<Longrightarrow> suffix (CHR ''}'' # r) s"
    by blast+
  have inner: "suffix (parse_space (tl s)) s" for s
    using suffix_parse_space [of "tl s"] suffix_tl [of s] by (meson suffix_order.trans)
  have a: "suffix (CHR '']'' # r) s" if "parse_array n s = Ok r a" for s r a
    using that al [of "parse_space (tl s)" "JYArray [] 0" r a] inner [of s]
    by (auto simp: parse_array.simps Let_def split: if_splits intro: suffix_order.trans)
  have ob: "suffix (CHR ''}'' # r) s" if "parse_object n s = Ok r obj" for s r obj
    using that ol [of "parse_space (tl s)" "JYObject [] 0" r obj] inner [of s]
    by (auto simp: parse_object.simps Let_def split: if_splits intro: suffix_order.trans)
  have v: "suffix r s" if "parse_value (Suc n) s = Ok r v" for s r v
    using a ob that by (rule suffix_value_step)
  have al': "suffix (CHR '']'' # r) s" if "parse_array_loop (Suc n) s out = Ok r a" for s out r a
    using v al that by (rule suffix_array_loop_step)
  have ol': "suffix (CHR ''}'' # r) s" if "parse_object_loop (Suc n) s out = Ok r obj" for s out r obj
    using v ol that by (rule suffix_object_loop_step)
  from v al' ol' show ?case by blast
qed

lemma parse_object_ends_with_brace:
  assumes "parse_object n s = Ok rest obj"
  shows "\<exists>pre. s = pre @ CHR ''}'' # rest"
proof -
  from suffix_value_loops [of n]
  have ol: "parse_object_loop n s' out = Ok rest obj \<Longrightarrow> suffix (CHR ''}'' # rest) s'" for s' out
    by blast
  have "suffix (parse_space (tl s)) s"
    using suffix_parse_space [of "tl s"] suffix_tl [of s] by (meson suffix_order.trans)
  with assms ol [of "parse_space (tl s)" "JYObject [] 0"] have "suffix (CHR ''}'' # rest) s"
    by (auto simp: parse_object.simps Let_def split: if_splits intro: suffix_order.trans)
  then show ?thesis by (simp add: suffix_def)
qed


section \<open>Sorted keys and binary search\<close>

lemma strcmp_less_iff: "strcmp a b < 0 \<longleftrightarrow> a < b"
  by (induction a b rule: strcmp.induct) (auto simp: less_char_def)

lemma strcmp_eq_iff: "strcmp a b = 0 \<longleftrightarrow> a = b"
  by (induction a b rule: strcmp.induct) auto

lemma strcmp_greater_iff: "strcmp a b > 0 \<longleftrightarrow> b < a"
  by (induction a b rule: strcmp.induct) (auto simp: less_char_def not_less_iff_gr_or_eq)

lemma keys_sorted_iff: "keys_sorted obj \<longleftrightarrow> sorted_wrt (<) (map key (pairs obj))"
proof -
  have "sorted_wrt (<) (map key (pairs obj)) \<longleftrightarrow>
      (\<forall>i. Suc i < length (map key (pairs obj)) \<longrightarrow> map key (pairs obj) ! i < map key (pairs obj) ! Suc i)"
    by (rule sorted_wrt_iff_nth_Suc_transp) (auto intro: transpI)
  then show ?thesis
    by (auto simp: keys_sorted_def ocount_def strcmp_less_iff)
qed

lemma insert_search_spec:
  assumes "sorted_wrt (<) (map key ps)"
    and "0 \<le> l" and "r < int (length ps)" and "l \<le> r + 1"
    and "\<forall>i. int i < l \<longrightarrow> key (ps ! i) < k"
    and "\<forall>i. r < int i \<and> i < length ps \<longrightarrow> k < key (ps ! i)"
  shows "case insert_search ps k l r of
           None \<Rightarrow> k \<in> key ` set ps
         | Some p \<Rightarrow> 0 \<le> p \<and> p \<le> int (length ps)
             \<and> (\<forall>i. int i < p \<longrightarrow> key (ps ! i) < k)
             \<and> (\<forall>i. p \<le> int i \<and> i < length ps \<longrightarrow> k < key (ps ! i))"
  using assms
proof (induction ps k l r rule: insert_search.induct)
  case (1 ps k l r)
  show ?case
  proof (cases "l \<le> r")
    case False
    with 1(3-) have "l = r + 1" by simp
    with False 1(3-) show ?thesis
      by (subst insert_search.simps) auto
  next
    case True
    define m where "m = (l + r) sdiv 2"
    from True midpoint_bounds [of l r] have lm: "l \<le> m" and mr: "m \<le> r" by (simp_all add: m_def)
    with 1(4,5) have m0: "0 \<le> m" and mlen: "nat m < length ps" by auto
    have nth_mono: "key (ps ! i) < key (ps ! j)" if "i < j" "j < length ps" for i j
      using sorted_wrt_nth_less [OF 1(3), of i j] that by simp
    consider (gt) "strcmp k (key (ps ! nat m)) > 0"
      | (lt) "\<not> strcmp k (key (ps ! nat m)) > 0" "strcmp k (key (ps ! nat m)) < 0"
      | (eq) "\<not> strcmp k (key (ps ! nat m)) > 0" "\<not> strcmp k (key (ps ! nat m)) < 0"
      by blast
    then show ?thesis
    proof cases
      case gt
      then have km: "key (ps ! nat m) < k" by (simp add: strcmp_greater_iff)
      have below: "\<forall>i. int i < m + 1 \<longrightarrow> key (ps ! i) < k"
      proof (intro allI impI)
        fix i assume "int i < m + 1"
        then have "i = nat m \<or> i < nat m" using m0 by auto
        then show "key (ps ! i) < k"
          using km nth_mono [of i "nat m"] mlen by (auto intro: less_trans)
      qed
      have "case insert_search ps k (m + 1) r of
           None \<Rightarrow> k \<in> key ` set ps
         | Some p \<Rightarrow> 0 \<le> p \<and> p \<le> int (length ps)
             \<and> (\<forall>i. int i < p \<longrightarrow> key (ps ! i) < k)
             \<and> (\<forall>i. p \<le> int i \<and> i < length ps \<longrightarrow> k < key (ps ! i))"
        using 1(1) [OF True m_def refl gt 1(3)] m0 mr 1(5,8) below by simp
      with True gt show ?thesis
        by (subst insert_search.simps) (simp add: m_def [symmetric] Let_def)
    next
      case lt
      then have km: "k < key (ps ! nat m)" by (simp add: strcmp_less_iff)
      have above: "\<forall>i. m - 1 < int i \<and> i < length ps \<longrightarrow> k < key (ps ! i)"
      proof (intro allI impI)
        fix i assume "m - 1 < int i \<and> i < length ps"
        then have "i = nat m \<or> (nat m < i \<and> i < length ps)" using m0 by auto
        then show "k < key (ps ! i)"
          using km nth_mono [of "nat m" i] by (auto intro: less_trans)
      qed
      have "case insert_search ps k l (m - 1) of
           None \<Rightarrow> k \<in> key ` set ps
         | Some p \<Rightarrow> 0 \<le> p \<and> p \<le> int (length ps)
             \<and> (\<forall>i. int i < p \<longrightarrow> key (ps ! i) < k)
             \<and> (\<forall>i. p \<le> int i \<and> i < length ps \<longrightarrow> k < key (ps ! i))"
        using 1(2) [OF True m_def refl lt(1) lt(2) 1(3)] lm mr mlen 1(4,5,7) above by simp
      with True lt show ?thesis
        by (subst insert_search.simps) (simp add: m_def [symmetric] Let_def)
    next
      case eq
      then have "k = key (ps ! nat m)" using strcmp_eq_iff [of k "key (ps ! nat m)"] by simp
      with mlen have "k \<in> key ` set ps" by (metis imageI nth_mem)
      with True eq show ?thesis
        by (subst insert_search.simps) (simp add: m_def [symmetric] Let_def)
    qed
  qed
qed


lemma jy_index_s_loop_spec:
  assumes "sorted_wrt (<) (map key (pairs obj))"
    and "0 \<le> l" and "r < int (ocount obj)" and "l \<le> r + 1"
    and "\<forall>i. int i < l \<longrightarrow> key (pairs obj ! i) < k"
    and "\<forall>i. r < int i \<and> i < ocount obj \<longrightarrow> k < key (pairs obj ! i)"
  shows "case jy_index_s_loop obj k l r of
           NULL \<Rightarrow> k \<notin> key ` set (pairs obj)
         | Slot p \<Rightarrow> p < ocount obj \<and> key (pairs obj ! p) = k"
  using assms
proof (induction obj k l r rule: jy_index_s_loop.induct)
  case (1 obj k l r)
  let ?ps = "pairs obj"
  have len: "ocount obj = length ?ps" by (simp add: ocount_def)
  show ?case
  proof (cases "l \<le> r")
    case False
    with 1(3-) have lr: "l = r + 1" by simp
    have "k \<notin> key ` set ?ps"
    proof
      assume "k \<in> key ` set ?ps"
      then obtain i where i: "i < length ?ps" "key (?ps ! i) = k"
        by (auto simp: in_set_conv_nth)
      have "k < k"
      proof (cases "int i < l")
        case True
        with 1(7) i show ?thesis by auto
      next
        case False
        with lr have "r < int i" by simp
        with 1(8) i len show ?thesis by auto
      qed
      then show False by simp
    qed
    with False show ?thesis
      by (subst jy_index_s_loop.simps) simp
  next
    case True
    define m where "m = (l + r) sdiv 2"
    from True midpoint_bounds [of l r] have lm: "l \<le> m" and mr: "m \<le> r" by (simp_all add: m_def)
    with 1(4,5) len have m0: "0 \<le> m" and mlen: "nat m < length ?ps" by auto
    have nth_mono: "key (?ps ! i) < key (?ps ! j)" if "i < j" "j < length ?ps" for i j
      using sorted_wrt_nth_less [OF 1(3), of i j] that by simp
    consider (gt) "strcmp k (key (?ps ! nat m)) > 0"
      | (lt) "\<not> strcmp k (key (?ps ! nat m)) > 0" "strcmp k (key (?ps ! nat m)) < 0"
      | (eq) "\<not> strcmp k (key (?ps ! nat m)) > 0" "\<not> strcmp k (key (?ps ! nat m)) < 0"
      by blast
    then show ?thesis
    proof cases
      case gt
      then have km: "key (?ps ! nat m) < k" by (simp add: strcmp_greater_iff)
      have below: "\<forall>i. int i < m + 1 \<longrightarrow> key (?ps ! i) < k"
      proof (intro allI impI)
        fix i assume "int i < m + 1"
        then have "i = nat m \<or> i < nat m" using m0 by auto
        then show "key (?ps ! i) < k"
          using km nth_mono [of i "nat m"] mlen by (auto intro: less_trans)
      qed
      have "case jy_index_s_loop obj k (m + 1) r of
           NULL \<Rightarrow> k \<notin> key ` set (pairs obj)
         | Slot p \<Rightarrow> p < ocount obj \<and> key (pairs obj ! p) = k"
        using 1(1) [OF True m_def refl gt 1(3)] m0 mr 1(5,8) below by simp
      with True gt show ?thesis
        by (subst jy_index_s_loop.simps) (simp add: m_def [symmetric] Let_def)
    next
      case lt
      then have km: "k < key (?ps ! nat m)" by (simp add: strcmp_less_iff)
      have above: "\<forall>i. m - 1 < int i \<and> i < ocount obj \<longrightarrow> k < key (?ps ! i)"
      proof (intro allI impI)
        fix i assume "m - 1 < int i \<and> i < ocount obj"
        then have "i = nat m \<or> (nat m < i \<and> i < length ?ps)" using m0 len by auto
        then show "k < key (?ps ! i)"
          using km nth_mono [of "nat m" i] by (auto intro: less_trans)
      qed
      have "case jy_index_s_loop obj k l (m - 1) of
           NULL \<Rightarrow> k \<notin> key ` set (pairs obj)
         | Slot p \<Rightarrow> p < ocount obj \<and> key (pairs obj ! p) = k"
        using 1(2) [OF True m_def refl lt(1) lt(2) 1(3)] lm mr mlen len 1(4,5,7) above by simp
      with True lt show ?thesis
        by (subst jy_index_s_loop.simps) (simp add: m_def [symmetric] Let_def)
    next
      case eq
      then have "key (?ps ! nat m) = k" using strcmp_eq_iff [of k "key (?ps ! nat m)"] by simp
      with True eq mlen len show ?thesis
        by (subst jy_index_s_loop.simps) (simp add: m_def [symmetric] Let_def)
    qed
  qed
qed

lemma jy_index_s_spec:
  assumes "keys_sorted obj"
  shows "case jy_index_s obj k of
           NULL \<Rightarrow> k \<notin> key ` set (pairs obj)
         | Slot p \<Rightarrow> p < ocount obj \<and> key (pairs obj ! p) = k"
  unfolding jy_index_s_def
  using assms by (intro jy_index_s_loop_spec) (auto simp: keys_sorted_iff)

lemma sorted_keys_unique:
  assumes "sorted_wrt (<) (map key ps)" and "i < length ps" and "j < length ps"
    and "key (ps ! i) = key (ps ! j)"
  shows "i = j"
proof (rule ccontr)
  assume "i \<noteq> j"
  then consider "i < j" | "j < i" by linarith
  then show False
  proof cases
    case 1
    with sorted_wrt_nth_less [OF assms(1), of i j] assms show False by simp
  next
    case 2
    with sorted_wrt_nth_less [OF assms(1), of j i] assms show False by simp
  qed
qed

lemma object_insert_spec:
  assumes "sorted_wrt (<) (map key (pairs out))"
  shows "case object_insert out k v of
           None \<Rightarrow> k \<in> key ` set (pairs out)
         | Some out' \<Rightarrow> k \<notin> key ` set (pairs out)
              \<and> sorted_wrt (<) (map key (pairs out'))
              \<and> set (pairs out') = insert (Pair_t k v) (set (pairs out))
              \<and> ocount out' = ocount out + 1"
proof -
  let ?ps = "pairs out"
  have spec: "case insert_search ?ps k 0 (int (ocount out) - 1) of
           None \<Rightarrow> k \<in> key ` set ?ps
         | Some p \<Rightarrow> 0 \<le> p \<and> p \<le> int (length ?ps)
             \<and> (\<forall>i. int i < p \<longrightarrow> key (?ps ! i) < k)
             \<and> (\<forall>i. p \<le> int i \<and> i < length ?ps \<longrightarrow> k < key (?ps ! i))"
    using assms by (intro insert_search_spec) (auto simp: ocount_def)
  show ?thesis
  proof (cases "insert_search ?ps k 0 (int (ocount out) - 1)")
    case None
    with spec show ?thesis by (simp add: object_insert_def)
  next
    case (Some p)
    with spec have p: "0 \<le> p" "nat p \<le> length ?ps"
      and lo: "\<And>i. i < nat p \<Longrightarrow> key (?ps ! i) < k"
      and hi: "\<And>i. nat p \<le> i \<Longrightarrow> i < length ?ps \<Longrightarrow> k < key (?ps ! i)"
      by auto
    have notin: "k \<notin> key ` set ?ps"
    proof
      assume "k \<in> key ` set ?ps"
      then obtain i where i: "i < length ?ps" "key (?ps ! i) = k"
        by (auto simp: in_set_conv_nth)
      with lo [of i] hi [of i] have "k < k" by (cases "i < nat p") auto
      then show False by simp
    qed
    have take_lt: "x < k" if "x \<in> set (take (nat p) (map key ?ps))" for x
    proof -
      from that obtain i where "i < nat p" "i < length ?ps" "x = key (?ps ! i)"
        by (auto simp: in_set_conv_nth)
      with lo show ?thesis by simp
    qed
    have drop_gt: "k < y" if "y \<in> set (drop (nat p) (map key ?ps))" for y
    proof -
      from that obtain j where j: "j < length (drop (nat p) (map key ?ps))"
        "y = drop (nat p) (map key ?ps) ! j"
        by (auto simp: in_set_conv_nth)
      then have "nat p \<le> nat p + j" "nat p + j < length ?ps" "y = key (?ps ! (nat p + j))"
        by auto
      with hi show ?thesis by blast
    qed
    have "sorted_wrt (<) (take (nat p) (map key ?ps) @ k # drop (nat p) (map key ?ps))"
      using assms take_lt drop_gt
      by (auto simp: sorted_wrt_append intro: less_trans)
    then have sorted: "sorted_wrt (<) (map key (take (nat p) ?ps @ Pair_t k v # drop (nat p) ?ps))"
      by (simp add: take_map drop_map)
    have "set (take (nat p) ?ps) \<union> set (drop (nat p) ?ps) = set ?ps"
      using set_append [of "take (nat p) ?ps" "drop (nat p) ?ps"]
      by (simp only: append_take_drop_id)
    then have elems: "set (take (nat p) ?ps @ Pair_t k v # drop (nat p) ?ps)
        = insert (Pair_t k v) (set ?ps)" by auto
    from Some notin sorted elems p show ?thesis
      by (simp add: object_insert_def Let_def ocount_def)
  qed
qed

lemma array_sorted_iff: "array_sorted a \<longleftrightarrow> (\<forall>v \<in> set (vals a). value_sorted v)"
  by (cases a) (simp add: list_all_iff)

lemma object_sorted_iff:
  "object_sorted obj \<longleftrightarrow> keys_sorted obj \<and> (\<forall>p \<in> set (pairs obj). value_sorted (val p))"
  by (cases obj) (simp add: list_all_iff Pair_t.map_sel)

lemma array_push_sorted:
  "array_sorted out \<Longrightarrow> value_sorted v \<Longrightarrow> array_sorted (array_push out v)"
  by (simp add: array_sorted_iff array_push_def Let_def)

lemma object_insert_sorted:
  assumes "object_sorted out" and "value_sorted v" and "object_insert out k v = Some out'"
  shows "object_sorted out'"
proof -
  from assms(1) have "sorted_wrt (<) (map key (pairs out))"
    by (simp add: object_sorted_iff keys_sorted_iff)
  from object_insert_spec [OF this, of k v] assms(3)
  have "sorted_wrt (<) (map key (pairs out'))"
    and "set (pairs out') = insert (Pair_t k v) (set (pairs out))" by simp_all
  with assms(1,2) show ?thesis
    by (simp add: object_sorted_iff keys_sorted_iff)
qed

lemma value_sorted_step:
  assumes "\<And>s rest a. parse_array n s = Ok rest a \<Longrightarrow> array_sorted a"
    and "\<And>s rest obj. parse_object n s = Ok rest obj \<Longrightarrow> object_sorted obj"
    and "parse_value (Suc n) s = Ok rest v"
  shows "value_sorted v"
  using assms(3) assms(1) [of s] assms(2) [of s]
  by (auto simp: parse_value.simps split: option.splits result.splits)

lemma array_loop_sorted_step:
  assumes "\<And>s rest v. parse_value (Suc n) s = Ok rest v \<Longrightarrow> value_sorted v"
    and "\<And>s out rest a. parse_array_loop n s out = Ok rest a \<Longrightarrow> array_sorted out
           \<Longrightarrow> array_sorted a"
    and "parse_array_loop (Suc n) s out = Ok rest a" and "array_sorted out"
  shows "array_sorted a"
proof (cases "peek s = CHR '']''")
  case True
  with assms(3,4) show ?thesis by (simp add: parse_array_loop.simps)
next
  case False
  with assms(3) obtain s1 res s' where
    v: "parse_value (Suc n) s = Ok s1 res" and
    rec: "parse_array_loop n s' (array_push out res) = Ok rest a"
    by (auto simp: parse_array_loop.simps Let_def split: result.splits if_splits)
  from assms(1) [OF v] assms(4) have "array_sorted (array_push out res)"
    by (simp add: array_push_sorted)
  with rec show ?thesis by (rule assms(2))
qed

lemma object_loop_sorted_step:
  assumes "\<And>s rest v. parse_value (Suc n) s = Ok rest v \<Longrightarrow> value_sorted v"
    and "\<And>s out rest obj. parse_object_loop n s out = Ok rest obj \<Longrightarrow> object_sorted out
           \<Longrightarrow> object_sorted obj"
    and "parse_object_loop (Suc n) s out = Ok rest obj" and "object_sorted out"
  shows "object_sorted obj"
proof (cases "peek s = CHR ''}''")
  case True
  with assms(3,4) show ?thesis by (simp add: parse_object_loop.simps)
next
  case False
  with assms(3) obtain k s2 s3 v out1 s' where
    v: "parse_value (Suc n) s2 = Ok s3 v" and
    ins: "object_insert out k v = Some out1" and
    rec: "parse_object_loop n s' out1 = Ok rest obj"
    by (auto simp: parse_object_loop.simps Let_def
        split: option.splits result.splits if_splits)
  from assms(4) assms(1) [OF v] ins have "object_sorted out1"
    by (rule object_insert_sorted)
  with rec show ?thesis by (rule assms(2))
qed

lemma sorted_value_loops:
  "(\<forall>s rest v. parse_value n s = Ok rest v \<longrightarrow> value_sorted v) \<and>
   (\<forall>s out rest a. parse_array_loop n s out = Ok rest a \<longrightarrow> array_sorted out
      \<longrightarrow> array_sorted a) \<and>
   (\<forall>s out rest obj. parse_object_loop n s out = Ok rest obj \<longrightarrow> object_sorted out
      \<longrightarrow> object_sorted obj)"
proof (induction n)
  case 0
  show ?case
    by (auto simp: parse_value.simps parse_array_loop.simps parse_object_loop.simps
        split: if_splits)
next
  case (Suc n)
  then have
    al: "\<And>s out rest a. parse_array_loop n s out = Ok rest a \<Longrightarrow> array_sorted out
           \<Longrightarrow> array_sorted a" and
    ol: "\<And>s out rest obj. parse_object_loop n s out = Ok rest obj \<Longrightarrow> object_sorted out
           \<Longrightarrow> object_sorted obj"
    by blast+
  have a: "array_sorted a" if "parse_array n s = Ok rest a" for s rest a
    using that al [of "parse_space (tl s)" "JYArray [] 0" rest a]
    by (auto simp: parse_array.simps Let_def split: if_splits)
  have ob: "object_sorted obj" if "parse_object n s = Ok rest obj" for s rest obj
    using that ol [of "parse_space (tl s)" "JYObject [] 0" rest obj]
    by (auto simp: parse_object.simps Let_def keys_sorted_def ocount_def split: if_splits)
  have v: "value_sorted v" if "parse_value (Suc n) s = Ok rest v" for s rest v
    using a ob that by (rule value_sorted_step)
  have al': "array_sorted a" if "parse_array_loop (Suc n) s out = Ok rest a" "array_sorted out"
    for s out rest a
    using v al that by (rule array_loop_sorted_step)
  have ol': "object_sorted obj"
    if "parse_object_loop (Suc n) s out = Ok rest obj" "object_sorted out" for s out rest obj
    using v ol that by (rule object_loop_sorted_step)
  from v al' ol' show ?case by blast
qed

lemma parse_object_all_sorted:
  assumes "parse_object n s = Ok rest obj"
  shows "object_sorted obj"
proof -
  from sorted_value_loops [of n]
  have "parse_object_loop n s' out = Ok rest obj \<Longrightarrow> object_sorted out \<Longrightarrow> object_sorted obj"
    for s' out by blast
  from this [of "parse_space (tl s)" "JYObject [] 0"] assms show ?thesis
    by (auto simp: parse_object.simps Let_def keys_sorted_def ocount_def split: if_splits)
qed

lemma parse_value_all_sorted: "parse_value n s = Ok rest v \<Longrightarrow> value_sorted v"
  using sorted_value_loops [of n] by blast


section \<open>Type checks\<close>

text \<open>
  C9. Each of \<^verbatim>\<open>jy_is_null\<close>, \<^verbatim>\<open>jy_is_bool\<close>, \<^verbatim>\<open>jy_is_number\<close>,
  \<^verbatim>\<open>jy_is_string\<close>, \<^verbatim>\<open>jy_is_array\<close> and \<^verbatim>\<open>jy_is_object\<close> returns non-zero
  exactly when the tag of the value is its own variant; in that case the content of
  \<^verbatim>\<open>*out\<close> after the call is the payload, and for a value of any other variant the
  result is 0 and \<^verbatim>\<open>*out\<close> is what it was. (\<^verbatim>\<open>jy_is_null\<close> has no
  \<^verbatim>\<open>out\<close> parameter.)
\<close>

theorem type_checks_narrow:
  "(jy_is_null v \<noteq> 0 \<longleftrightarrow> type_of v = TYPE_NULL)
   \<and> (fst (jy_is_bool v ob) \<noteq> 0 \<longleftrightarrow> type_of v = TYPE_BOOL)
   \<and> jy_is_bool (VBool b) ob = (1, b)
   \<and> (type_of v \<noteq> TYPE_BOOL \<longrightarrow> jy_is_bool v ob = (0, ob))
   \<and> (fst (jy_is_number v on) \<noteq> 0 \<longleftrightarrow> type_of v = TYPE_NUMBER)
   \<and> jy_is_number (VNumber d) on = (1, d)
   \<and> (type_of v \<noteq> TYPE_NUMBER \<longrightarrow> jy_is_number v on = (0, on))
   \<and> (fst (jy_is_string v os) \<noteq> 0 \<longleftrightarrow> type_of v = TYPE_STRING)
   \<and> jy_is_string (VString str) os = (1, Some str)
   \<and> (type_of v \<noteq> TYPE_STRING \<longrightarrow> jy_is_string v os = (0, os))
   \<and> (fst (jy_is_array v oa) \<noteq> 0 \<longleftrightarrow> type_of v = TYPE_ARRAY)
   \<and> jy_is_array (VArray a) oa = (1, Some a)
   \<and> (type_of v \<noteq> TYPE_ARRAY \<longrightarrow> jy_is_array v oa = (0, oa))
   \<and> (fst (jy_is_object v oo) \<noteq> 0 \<longleftrightarrow> type_of v = TYPE_OBJECT)
   \<and> jy_is_object (VObject obj) oo = (1, Some obj)
   \<and> (type_of v \<noteq> TYPE_OBJECT \<longrightarrow> jy_is_object v oo = (0, oo))"
  by (simp add: jy_is_null_def jy_is_bool_def jy_is_number_def jy_is_string_def
      jy_is_array_def jy_is_object_def)

theorem type_checks_narrow_witness:
  "type_of (VString ''s'') \<noteq> TYPE_BOOL \<and> jy_is_bool (VString ''s'') 7 = (0, 7)
   \<and> type_of (VString ''s'') \<noteq> TYPE_NUMBER \<and> jy_is_number (VString ''s'') 7 = (0, 7)
   \<and> type_of VNull \<noteq> TYPE_STRING \<and> jy_is_string VNull (Some ''x'') = (0, Some ''x'')
   \<and> type_of (VString ''s'') \<noteq> TYPE_ARRAY
   \<and> jy_is_array (VString ''s'') (Some (JYArray [] 0)) = (0, Some (JYArray [] 0))
   \<and> type_of (VString ''s'') \<noteq> TYPE_OBJECT \<and> jy_is_object (VString ''s'') None = (0, None)
   \<and> jy_is_string (VString ''s'') None = (1, Some ''s'')
   \<and> jy_is_null (VString ''s'') = 0 \<and> jy_is_null VNull \<noteq> 0"
  using type_checks_narrow [where v = "VString ''s''" and ob = 7 and on = 7 and os = None
      and str = "''s''" and oa = "Some (JYArray [] 0)" and oo = None]
    type_checks_narrow [where v = VNull and os = "Some ''x''"]
  by simp

section \<open>Lookup by index\<close>

lemma jy_index_i_above_count: "count a < i \<Longrightarrow> jy_index_i a i = NULL"
  by (simp add: jy_index_i_def)

lemma jy_index_i_obj_above_count:
  "ocount obj < i \<Longrightarrow> jy_index_i_obj obj i out_key = Some (NULL, out_key)"
  by (simp add: jy_index_i_obj_def)

lemma jy_index_at_count:
  "capacity a \<noteq> 0 \<Longrightarrow> jy_index_i a (count a) = Slot (count a)"
  "ocount obj < ocapacity obj \<Longrightarrow>
     jy_index_i_obj obj (ocount obj) out_key = Some (Slot (ocount obj), None)"
  "ocapacity obj \<le> ocount obj \<Longrightarrow> jy_index_i_obj obj (ocount obj) out_key = None"
  "jy_index_i (JYArray [] 0) 0 = NULL"
  by (simp_all add: jy_index_i_def jy_index_i_obj_def slot_addr_def read_key_def count_def)

text \<open>
  C1. The claim is that an index not less than the count gives \<^verbatim>\<open>NULL\<close> and leaves
  \<^verbatim>\<open>*out_key\<close> alone. The test in the code is \<^verbatim>\<open>count < index\<close>: at the index
  equal to the count, on the array that \<^verbatim>\<open>parse_array\<close> builds from \<^verbatim>\<open>[1]\<close> and
  on the object that \<^verbatim>\<open>parse_object\<close> builds from \<^verbatim>\<open>{"a":1}\<close>, the functions
  return the address of the slot after the last live one, and \<^verbatim>\<open>jy_index_i_obj\<close>
  overwrites \<^verbatim>\<open>*out_key\<close> with the indeterminate content of that slot. On the
  empty object built from \<^verbatim>\<open>{}\<close>, index 0 makes \<^verbatim>\<open>jy_index_i_obj\<close> read through
  the \<^verbatim>\<open>NULL\<close> buffer pointer.
\<close>

theorem jy_index_at_count_not_null:
  "parse_array 1 ''[1]'' = Ok [] (JYArray [VNumber 1] 16)
   \<and> count (JYArray [VNumber 1] 16) = 1
   \<and> jy_index_i (JYArray [VNumber 1] 16) 1 = Slot 1
   \<and> parse_object 1 ''{\"a\":1}'' = Ok [] (JYObject [Pair_t ''a'' (VNumber 1)] 16)
   \<and> ocount (JYObject [Pair_t ''a'' (VNumber 1)] 16) = 1
   \<and> jy_index_i_obj (JYObject [Pair_t ''a'' (VNumber 1)] 16) 1 (Some ''k'') = Some (Slot 1, None)
   \<and> parse_object 0 ''{}'' = Ok [] (JYObject [] 0)
   \<and> jy_index_i_obj (JYObject [] 0) 0 (Some ''k'') = None"
  by code_simp

section \<open>Trailing commas\<close>

text \<open>
  C10. \<^verbatim>\<open>parse_array\<close> on \<^verbatim>\<open>[1,]\<close> succeeds with an array of exactly one
  element, and \<^verbatim>\<open>parse_object\<close> on \<^verbatim>\<open>{"a":1,}\<close> succeeds with an object of exactly
  one pair, whatever the counter (from 1 on); so does \<^verbatim>\<open>jy_parse\<close> on the latter.
\<close>

theorem trailing_comma_accepted:
  "parse_array (Suc n) ''[1,]'' = Ok [] (JYArray [VNumber 1] 16)
   \<and> count (JYArray [VNumber 1] 16) = 1
   \<and> parse_object (Suc n) ''{\"a\":1,}'' = Ok [] (JYObject [Pair_t ''a'' (VNumber 1)] 16)
   \<and> ocount (JYObject [Pair_t ''a'' (VNumber 1)] 16) = 1
   \<and> jy_parse ''{\"a\":1,}'' = Some (JYDocument (JYObject [Pair_t ''a'' (VNumber 1)] 16))"
proof -
  have a: "parse_array 1 ''[1,]'' = Ok [] (JYArray [VNumber 1] 16)" by code_simp
  have ob: "parse_object 1 ''{\"a\":1,}'' = Ok [] (JYObject [Pair_t ''a'' (VNumber 1)] 16)"
    by code_simp
  have d: "jy_parse ''{\"a\":1,}'' = Some (JYDocument (JYObject [Pair_t ''a'' (VNumber 1)] 16))"
    by code_simp
  from a have "parse_array (Suc n) ''[1,]'' = parse_array 1 ''[1,]''"
    by (intro parse_array_fuel_mono) simp_all
  moreover from ob have "parse_object (Suc n) ''{\"a\":1,}'' = parse_object 1 ''{\"a\":1,}''"
    by (intro parse_object_fuel_mono) simp_all
  ultimately show ?thesis using a ob d by (simp add: count_def ocount_def)
qed

section \<open>Objects keep their keys sorted\<close>

text \<open>
  C4. Every object that a successful parse produces satisfies the invariant: for all
  \<open>i < count - 1\<close>, \<^verbatim>\<open>strcmp(pairs[i].key, pairs[i+1].key) < 0\<close>. This holds of
  the object \<^verbatim>\<open>parse_object\<close> returns, of every object nested anywhere in a value
  \<^verbatim>\<open>parse_value\<close> returns, and of every object in the document of \<^verbatim>\<open>jy_parse\<close>.
  The insertion step of \<^verbatim>\<open>parse_object\<close> preserves the invariant whatever the key
  (adding exactly the new pair), and reading the keys of a parsed object by index
  through \<^verbatim>\<open>jy_index_i_obj\<close> gives strictly increasing keys.
\<close>

theorem parsed_objects_sorted:
  "(parse_object n s = Ok rest obj \<longrightarrow> keys_sorted obj)
   \<and> (parse_value n s = Ok rest v \<longrightarrow> value_sorted v)
   \<and> (jy_parse s = Some doc \<longrightarrow> object_sorted (jy_root doc))
   \<and> (keys_sorted out \<and> object_insert out k x = Some out' \<longrightarrow>
        keys_sorted out' \<and> ocount out' = ocount out + 1
        \<and> set (pairs out') = insert (Pair_t k x) (set (pairs out)))
   \<and> (parse_object n s = Ok rest obj \<and> i < j \<and> j < ocount obj \<longrightarrow>
        (\<exists>ki kj. jy_index_i_obj obj i ok = Some (Slot i, Some ki)
           \<and> jy_index_i_obj obj j ok = Some (Slot j, Some kj) \<and> strcmp ki kj < 0))"
proof (intro conjI impI)
  assume p: "parse_object n s = Ok rest obj"
  then show "keys_sorted obj" using parse_object_all_sorted object_sorted_iff by blast
next
  assume "parse_value n s = Ok rest v"
  then show "value_sorted v" by (rule parse_value_all_sorted)
next
  assume "jy_parse s = Some doc"
  then obtain r where "parse_object (length s) s = Ok r (jy_root doc)"
    by (auto simp: jy_parse_def jy_root_def split: result.splits)
  then show "object_sorted (jy_root doc)" by (rule parse_object_all_sorted)
next
  assume a: "keys_sorted out \<and> object_insert out k x = Some out'"
  then have "sorted_wrt (<) (map key (pairs out))" by (simp add: keys_sorted_iff)
  from object_insert_spec [OF this, of k x] a
  show "keys_sorted out'" and "ocount out' = ocount out + 1"
    and "set (pairs out') = insert (Pair_t k x) (set (pairs out))"
    by (simp_all add: keys_sorted_iff)
next
  assume a: "parse_object n s = Ok rest obj \<and> i < j \<and> j < ocount obj"
  then have "keys_sorted obj" using parse_object_all_sorted object_sorted_iff by blast
  then have "sorted_wrt (<) (map key (pairs obj))" by (simp add: keys_sorted_iff)
  from sorted_wrt_nth_less [OF this, of i j] a
  have "key (pairs obj ! i) < key (pairs obj ! j)" by (simp add: ocount_def)
  with a show "\<exists>ki kj. jy_index_i_obj obj i ok = Some (Slot i, Some ki)
      \<and> jy_index_i_obj obj j ok = Some (Slot j, Some kj) \<and> strcmp ki kj < 0"
    by (simp add: jy_index_i_obj_def read_key_def strcmp_less_iff)
qed

theorem parsed_objects_sorted_witness:
  "parse_object 9 ''{\"b\":0,\"c\":{\"z\":1,\"y\":2},\"a\":1}'' = Ok []
      (JYObject [Pair_t ''a'' (VNumber 1), Pair_t ''b'' (VNumber 0),
        Pair_t ''c'' (VObject (JYObject [Pair_t ''y'' (VNumber 2), Pair_t ''z'' (VNumber 1)] 16))] 16)
   \<and> keys_sorted (JYObject [Pair_t ''a'' (VNumber 1), Pair_t ''b'' (VNumber 0),
        Pair_t ''c'' (VObject (JYObject [Pair_t ''y'' (VNumber 2), Pair_t ''z'' (VNumber 1)] 16))] 16)
   \<and> parse_value 9 ''{\"z\":1,\"y\":2}'' = Ok []
        (VObject (JYObject [Pair_t ''y'' (VNumber 2), Pair_t ''z'' (VNumber 1)] 16))
   \<and> value_sorted (VObject (JYObject [Pair_t ''y'' (VNumber 2), Pair_t ''z'' (VNumber 1)] 16))
   \<and> jy_parse ''{\"b\":0,\"a\":1}''
        = Some (JYDocument (JYObject [Pair_t ''a'' (VNumber 1), Pair_t ''b'' (VNumber 0)] 16))
   \<and> object_sorted (jy_root (JYDocument (JYObject [Pair_t ''a'' (VNumber 1), Pair_t ''b'' (VNumber 0)] 16)))
   \<and> keys_sorted (JYObject [Pair_t ''a'' VNull, Pair_t ''c'' VNull] 16)
   \<and> object_insert (JYObject [Pair_t ''a'' VNull, Pair_t ''c'' VNull] 16) ''b'' VNull
        = Some (JYObject [Pair_t ''a'' VNull, Pair_t ''b'' VNull, Pair_t ''c'' VNull] 16)
   \<and> keys_sorted (JYObject [Pair_t ''a'' VNull, Pair_t ''b'' VNull, Pair_t ''c'' VNull] 16)
   \<and> (\<exists>ki kj. jy_index_i_obj (JYObject [Pair_t ''a'' (VNumber 1), Pair_t ''b'' (VNumber 0),
        Pair_t ''c'' (VObject (JYObject [Pair_t ''y'' (VNumber 2), Pair_t ''z'' (VNumber 1)] 16))] 16) 0 None
          = Some (Slot 0, Some ki)
       \<and> jy_index_i_obj (JYObject [Pair_t ''a'' (VNumber 1), Pair_t ''b'' (VNumber 0),
        Pair_t ''c'' (VObject (JYObject [Pair_t ''y'' (VNumber 2), Pair_t ''z'' (VNumber 1)] 16))] 16) 2 None
          = Some (Slot 2, Some kj)
       \<and> strcmp ki kj < 0)"
proof -
  let ?inner = "JYObject [Pair_t ''y'' (VNumber 2), Pair_t ''z'' (VNumber 1)] 16"
  let ?obj = "JYObject [Pair_t ''a'' (VNumber 1), Pair_t ''b'' (VNumber 0), Pair_t ''c'' (VObject ?inner)] 16"
  let ?s = "''{\"b\":0,\"c\":{\"z\":1,\"y\":2},\"a\":1}''"
  let ?doc = "JYDocument (JYObject [Pair_t ''a'' (VNumber 1), Pair_t ''b'' (VNumber 0)] 16)"
  let ?out = "JYObject [Pair_t ''a'' VNull, Pair_t ''c'' VNull] 16"
  let ?out' = "JYObject [Pair_t ''a'' VNull, Pair_t ''b'' VNull, Pair_t ''c'' VNull] 16"
  have p: "parse_object 9 ?s = Ok [] ?obj" by code_simp
  have pv: "parse_value 9 ''{\"z\":1,\"y\":2}'' = Ok [] (VObject ?inner)" by code_simp
  have d: "jy_parse ''{\"b\":0,\"a\":1}'' = Some ?doc" by code_simp
  have k: "keys_sorted ?out" by code_simp
  have ins: "object_insert ?out ''b'' VNull = Some ?out'" by code_simp
  have ij: "(0::nat) < 2 \<and> 2 < ocount ?obj" by (simp add: ocount_def)
  note c1 = parsed_objects_sorted [THEN conjunct1, THEN mp]
  note c2 = parsed_objects_sorted [THEN conjunct2, THEN conjunct1, THEN mp]
  note c3 = parsed_objects_sorted [THEN conjunct2, THEN conjunct2, THEN conjunct1, THEN mp]
  note c4 = parsed_objects_sorted [THEN conjunct2, THEN conjunct2, THEN conjunct2,
      THEN conjunct1, THEN mp]
  note c5 = parsed_objects_sorted [THEN conjunct2, THEN conjunct2, THEN conjunct2,
      THEN conjunct2, THEN mp]
  from c1 [OF p] c2 [OF pv] c3 [OF d] c4 [OF conjI [OF k ins], THEN conjunct1]
    c5 [OF conjI [OF p ij], of None] p pv d k ins
  show ?thesis by (intro conjI)
qed


section \<open>Duplicate keys\<close>

text \<open>
  C5. When the key just read is equal to a key of the object built so far, the
  insertion step has no result and the loop of \<^verbatim>\<open>parse_object\<close> returns
  \<^verbatim>\<open>NULL\<close>, giving no object back. On \<^verbatim>\<open>{"a":1,"a":2}\<close> \<^verbatim>\<open>parse_object\<close>
  fails (for every counter value from 2 on) and \<^verbatim>\<open>jy_parse\<close> returns \<^verbatim>\<open>NULL\<close>:
  the caller gets no document and so no partly built object.
\<close>

theorem duplicate_key_rejected:
  "(keys_sorted out \<and> k \<in> key ` set (pairs out) \<longrightarrow> object_insert out k v = None)
   \<and> (keys_sorted out \<and> k \<in> key ` set (pairs out) \<and> parse_string s = Some (s1, k)
        \<and> peek (parse_space s1) = CHR '':''
        \<and> parse_value (Suc n) (parse_space (tl (parse_space s1))) = Ok s3 v
      \<longrightarrow> parse_object_loop (Suc n) s out = Fail)
   \<and> parse_object (n + 2) ''{\"a\":1,\"a\":2}'' = Fail
   \<and> jy_parse ''{\"a\":1,\"a\":2}'' = None"
proof -
  have ins: "object_insert out k v = None"
    if "keys_sorted out \<and> k \<in> key ` set (pairs out)" for out k v
  proof -
    from that have "sorted_wrt (<) (map key (pairs out))" by (simp add: keys_sorted_iff)
    from object_insert_spec [OF this, of k v] that show ?thesis
      by (cases "object_insert out k v") auto
  qed
  have loop: "parse_object_loop (Suc n) s out = Fail"
    if a: "keys_sorted out \<and> k \<in> key ` set (pairs out) \<and> parse_string s = Some (s1, k)
        \<and> peek (parse_space s1) = CHR '':''
        \<and> parse_value (Suc n) (parse_space (tl (parse_space s1))) = Ok s3 v"
  proof -
    from a have "peek s = CHR 0x22" by (auto simp: parse_string_def split: if_splits)
    then have "peek s \<noteq> CHR ''}''" by simp
    with a ins [of out k v] show ?thesis
      by (simp add: parse_object_loop.simps Let_def)
  qed
  have "parse_object 2 ''{\"a\":1,\"a\":2}'' = Fail" by code_simp
  then have "parse_object (n + 2) ''{\"a\":1,\"a\":2}'' = parse_object 2 ''{\"a\":1,\"a\":2}''"
    by (intro parse_object_fuel_mono) simp_all
  moreover have "parse_object 2 ''{\"a\":1,\"a\":2}'' = Fail" by code_simp
  moreover have "jy_parse ''{\"a\":1,\"a\":2}'' = None" by code_simp
  ultimately show ?thesis using ins loop by simp
qed

theorem duplicate_key_rejected_witness:
  "keys_sorted (JYObject [Pair_t ''a'' (VNumber 1)] 16)
   \<and> ''a'' \<in> key ` set (pairs (JYObject [Pair_t ''a'' (VNumber 1)] 16))
   \<and> parse_string ''\"a\":2}'' = Some ('':2}'', ''a'')
   \<and> peek (parse_space '':2}'') = CHR '':''
   \<and> parse_value (Suc 0) (parse_space (tl (parse_space '':2}''))) = Ok ''}'' (VNumber 2)
   \<and> object_insert (JYObject [Pair_t ''a'' (VNumber 1)] 16) ''a'' (VNumber 2) = None
   \<and> parse_object_loop (Suc 0) ''\"a\":2}'' (JYObject [Pair_t ''a'' (VNumber 1)] 16) = Fail"
proof -
  let ?out = "JYObject [Pair_t ''a'' (VNumber 1)] 16"
  have k: "keys_sorted ?out" by code_simp
  have m: "''a'' \<in> key ` set (pairs ?out)" by simp
  have ps: "parse_string ''\"a\":2}'' = Some ('':2}'', ''a'')" by code_simp
  have pk: "peek (parse_space '':2}'') = CHR '':''" by code_simp
  have pv: "parse_value (Suc 0) (parse_space (tl (parse_space '':2}''))) = Ok ''}'' (VNumber 2)"
    by code_simp
  note c1 = duplicate_key_rejected [THEN conjunct1, THEN mp]
  note c2 = duplicate_key_rejected [THEN conjunct2, THEN conjunct1, THEN mp]
  from c1 [OF conjI [OF k m], of "VNumber 2"]
    c2 [OF conjI [OF k conjI [OF m conjI [OF ps conjI [OF pk pv]]]]] k m ps pk pv
  show ?thesis by (intro conjI)
qed


section \<open>Lookup by key\<close>

text \<open>
  C8. On an object whose keys are strictly sorted, \<^verbatim>\<open>jy_index_s\<close> returns the
  address of the value of the pair whose key equals the search key, if there is one,
  and \<^verbatim>\<open>NULL\<close> if there is none. On the object parsed from \<^verbatim>\<open>{"b":0,"a":1}\<close>
  the lookups of \<^verbatim>\<open>a\<close> and \<^verbatim>\<open>b\<close> both succeed.
\<close>

theorem jy_index_s_finds:
  "(keys_sorted obj \<and> i < ocount obj \<and> key (pairs obj ! i) = k \<longrightarrow> jy_index_s obj k = Slot i)
   \<and> (keys_sorted obj \<and> k \<notin> key ` set (pairs obj) \<longrightarrow> jy_index_s obj k = NULL)
   \<and> jy_parse ''{\"b\":0,\"a\":1}''
        = Some (JYDocument (JYObject [Pair_t ''a'' (VNumber 1), Pair_t ''b'' (VNumber 0)] 16))
   \<and> jy_index_s (JYObject [Pair_t ''a'' (VNumber 1), Pair_t ''b'' (VNumber 0)] 16) ''a'' = Slot 0
   \<and> jy_index_s (JYObject [Pair_t ''a'' (VNumber 1), Pair_t ''b'' (VNumber 0)] 16) ''b'' = Slot 1"
proof (intro conjI impI)
  assume a: "keys_sorted obj \<and> i < ocount obj \<and> key (pairs obj ! i) = k"
  then have mem: "k \<in> key ` set (pairs obj)"
    by (metis imageI nth_mem ocount_def)
  from a have srt: "sorted_wrt (<) (map key (pairs obj))" by (simp add: keys_sorted_iff)
  from a jy_index_s_spec [of obj k] mem obtain p where
    p: "jy_index_s obj k = Slot p" "p < ocount obj" "key (pairs obj ! p) = k"
    by (cases "jy_index_s obj k") auto
  with a sorted_keys_unique [OF srt, of p i] have "p = i" by (simp add: ocount_def)
  with p show "jy_index_s obj k = Slot i" by simp
next
  assume a: "keys_sorted obj \<and> k \<notin> key ` set (pairs obj)"
  with jy_index_s_spec [of obj k] show "jy_index_s obj k = NULL"
    by (cases "jy_index_s obj k") (auto simp: ocount_def)
next
  show "jy_parse ''{\"b\":0,\"a\":1}''
        = Some (JYDocument (JYObject [Pair_t ''a'' (VNumber 1), Pair_t ''b'' (VNumber 0)] 16))"
    by code_simp
  show "jy_index_s (JYObject [Pair_t ''a'' (VNumber 1), Pair_t ''b'' (VNumber 0)] 16) ''a'' = Slot 0"
    by code_simp
  show "jy_index_s (JYObject [Pair_t ''a'' (VNumber 1), Pair_t ''b'' (VNumber 0)] 16) ''b'' = Slot 1"
    by code_simp
qed

theorem jy_index_s_finds_witness:
  "keys_sorted (JYObject [Pair_t ''a'' (VNumber 1), Pair_t ''b'' (VNumber 0), Pair_t ''d'' VNull] 16)
   \<and> jy_index_s (JYObject [Pair_t ''a'' (VNumber 1), Pair_t ''b'' (VNumber 0), Pair_t ''d'' VNull] 16) ''d''
       = Slot 2
   \<and> ''c'' \<notin> key ` set (pairs (JYObject [Pair_t ''a'' (VNumber 1), Pair_t ''b'' (VNumber 0), Pair_t ''d'' VNull] 16))
   \<and> jy_index_s (JYObject [Pair_t ''a'' (VNumber 1), Pair_t ''b'' (VNumber 0), Pair_t ''d'' VNull] 16) ''c''
       = NULL"
proof -
  let ?obj = "JYObject [Pair_t ''a'' (VNumber 1), Pair_t ''b'' (VNumber 0), Pair_t ''d'' VNull] 16"
  have k: "keys_sorted ?obj" by code_simp
  have i: "2 < ocount ?obj \<and> key (pairs ?obj ! 2) = ''d''" by (simp add: ocount_def)
  have c: "''c'' \<notin> key ` set (pairs ?obj)" by simp
  note c1 = jy_index_s_finds [THEN conjunct1, THEN mp]
  note c2 = jy_index_s_finds [THEN conjunct2, THEN conjunct1, THEN mp]
  from c1 [OF conjI [OF k i]] c2 [OF conjI [OF k c]] k c
  show ?thesis by (intro conjI)
qed


section \<open>The entry point\<close>

text \<open>
  C3. \<^verbatim>\<open>jy_parse\<close> succeeds exactly when \<^verbatim>\<open>parse_object\<close>, run on the input
  from its first byte, returns an object; the cursor \<^verbatim>\<open>parse_object\<close> returns is
  what follows a closing brace of the input, and the document holds the object
  whatever that cursor is, so the bytes after the closing brace are not looked at: \<^verbatim>\<open>{}\<close> followed by any bytes parses, \<^verbatim>\<open>{} garbage\<close> among them.
  An input that does not start with an opening brace is rejected: the empty input, a
  bare scalar, and the bare array \<^verbatim>\<open>[1,2,3]\<close>, which \<^verbatim>\<open>parse_value\<close> would accept.
\<close>

theorem jy_parse_object_only:
  "(jy_parse s \<noteq> None \<longleftrightarrow> (\<exists>n rest r. parse_object n s = Ok rest r))
   \<and> (parse_object n s = Ok rest r \<longrightarrow>
        jy_parse s = Some (JYDocument r) \<and> (\<exists>pre. s = pre @ CHR ''}'' # rest))
   \<and> (jy_parse s = None \<longleftrightarrow> (\<exists>n. parse_object n s = Fail))
   \<and> parse_object n (''{}'' @ t) = Ok t (JYObject [] 0)
   \<and> jy_parse (''{}'' @ t) = Some (JYDocument (JYObject [] 0))
   \<and> jy_parse ''{} garbage'' = Some (JYDocument (JYObject [] 0))
   \<and> (peek s \<noteq> CHR ''{'' \<longrightarrow> jy_parse s = None)
   \<and> jy_parse ''[1,2,3]'' = None
   \<and> parse_value 4 ''[1,2,3]'' = Ok [] (VArray (JYArray [VNumber 1, VNumber 2, VNumber 3] 16))
   \<and> jy_parse [] = None
   \<and> jy_parse ''1'' = None
   \<and> jy_parse ''null'' = None"
proof -
  have ok: "jy_parse s = Some (JYDocument r)" if "parse_object n s = Ok rest r" for n s rest r
    using that jy_parse_iff [of s "JYDocument r"] by auto
  have c1: "jy_parse s \<noteq> None \<longleftrightarrow> (\<exists>n rest r. parse_object n s = Ok rest r)"
  proof
    assume "jy_parse s \<noteq> None"
    then obtain doc where "jy_parse s = Some doc" by auto
    then show "\<exists>n rest r. parse_object n s = Ok rest r" using jy_parse_iff by blast
  next
    assume "\<exists>n rest r. parse_object n s = Ok rest r"
    then show "jy_parse s \<noteq> None" using ok by fastforce
  qed
  have sp: "parse_space (CHR ''}'' # t) = CHR ''}'' # t" for t
    by (subst parse_space.simps) (simp add: isspace_def)
  have e: "parse_object n (''{}'' @ t) = Ok t (JYObject [] 0)" for n t
    by (cases n) (simp_all add: parse_object.simps parse_object_loop.simps sp Let_def)
  have f: "jy_parse s = None" if "peek s \<noteq> CHR ''{''" for s
    using that by (simp add: jy_parse_def parse_object.simps)
  have g: "parse_value 4 ''[1,2,3]''
      = Ok [] (VArray (JYArray [VNumber 1, VNumber 2, VNumber 3] 16))" by code_simp
  from c1 ok [of n s rest r] parse_object_ends_with_brace [of n s rest r]
    jy_parse_None_iff [of s] e [of n t] ok [OF e [of 0 t]]
    ok [OF e [of 0 "'' garbage''"]] f [of s] g
    f [of "''[1,2,3]''"] f [of "[]"] f [of "''1''"] f [of "''null''"]
  show ?thesis by simp
qed

theorem jy_parse_object_only_witness:
  "parse_object 0 ''{} garbage'' = Ok '' garbage'' (JYObject [] 0)
   \<and> jy_parse ''{} garbage'' = Some (JYDocument (JYObject [] 0))
   \<and> (\<exists>pre. ''{} garbage'' = pre @ CHR ''}'' # '' garbage'')
   \<and> peek ''[1,2,3]'' \<noteq> CHR ''{''
   \<and> jy_parse ''[1,2,3]'' = None"
proof -
  have p: "parse_object 0 ''{} garbage'' = Ok '' garbage'' (JYObject [] 0)" by code_simp
  have k: "peek ''[1,2,3]'' \<noteq> CHR ''{''" by simp
  note c2 = jy_parse_object_only [THEN conjunct2, THEN conjunct1, THEN mp]
  note c7 = jy_parse_object_only [THEN conjunct2, THEN conjunct2, THEN conjunct2,
      THEN conjunct2, THEN conjunct2, THEN conjunct2, THEN conjunct1, THEN mp]
  from c2 [OF p, THEN conjunct1] c2 [OF p, THEN conjunct2] c7 [OF k] p k
  show ?thesis by (intro conjI)
qed

section \<open>Numbers\<close>

lemma parse_space_stop:
  "c \<noteq> CHR 0x00 \<Longrightarrow> \<not> isspace c \<Longrightarrow> c \<noteq> CHR ''/'' \<Longrightarrow> parse_space (c # t) = c # t"
  by (subst parse_space.simps) simp

lemma is_digit_not_delim:
  assumes "is_digit d"
  shows "d \<noteq> CHR 0x00" "\<not> isspace d" "d \<noteq> CHR ''/''" "d \<noteq> CHR '',''" "d \<noteq> CHR '']''"
    "d \<noteq> CHR ''}''" "d \<noteq> CHR ''.''" "d \<noteq> CHR ''e''" "d \<noteq> CHR ''E''"
  using assms by (auto simp: is_digit_def isspace_def)

lemma parse_number_leading_zero:
  assumes "is_digit d"
  shows "parse_number (CHR ''0'' # d # rest) = Some (d # rest, 0)"
  using is_digit_not_delim [OF assms]
  by (simp add: parse_number_def number_int_part_def number_frac_part_def number_exp_part_def)

lemma parse_number_minus_leading_zero:
  assumes "is_digit d"
  shows "parse_number (CHR ''-'' # CHR ''0'' # d # rest) = Some (d # rest, 0)"
  using is_digit_not_delim [OF assms]
  by (simp add: parse_number_def number_int_part_def number_frac_part_def number_exp_part_def)

lemma parse_value_leading_zero:
  assumes "is_digit d"
  shows "parse_value (Suc n) (CHR ''0'' # d # rest) = Ok (d # rest) (VNumber 0)"
  using parse_number_leading_zero [OF assms, of rest]
  by (simp add: parse_value.simps parse_null_def parse_bool_def)

text \<open>
  C2, as claimed: \<^verbatim>\<open>parse_number\<close> and \<^verbatim>\<open>parse_value\<close> fail on \<^verbatim>\<open>01\<close>. They do
  not: both return the number 0 and the cursor at the \<^verbatim>\<open>1\<close>.
\<close>

theorem leading_zero_counterexample:
  "parse_number ''01'' = Some (''1'', 0) \<and> parse_value 1 ''01'' = Ok ''1'' (VNumber 0)"
  by code_simp

text \<open>
  C2, amended. On an input that starts with \<^verbatim>\<open>0\<close> (or \<^verbatim>\<open>-0\<close>) and another digit,
  \<^verbatim>\<open>parse_number\<close> takes the \<^verbatim>\<open>0\<close> alone as the number 0 and returns the cursor
  at the second digit, and so does \<^verbatim>\<open>parse_value\<close>. The literal is rejected one
  level up: the loop of \<^verbatim>\<open>parse_array\<close> and the loop of \<^verbatim>\<open>parse_object\<close> find
  a digit where a comma or the closing bracket must follow, and fail; so do
  \<^verbatim>\<open>parse_array\<close>, \<^verbatim>\<open>parse_object\<close> and \<^verbatim>\<open>jy_parse\<close> on an array or an object
  whose first value is such a literal.
\<close>

theorem leading_zero_stops_after_zero:
  assumes "is_digit d"
  shows "parse_number (CHR ''0'' # d # rest) = Some (d # rest, 0)
    \<and> parse_number (CHR ''-'' # CHR ''0'' # d # rest) = Some (d # rest, 0)
    \<and> parse_value (Suc n) (CHR ''0'' # d # rest) = Ok (d # rest) (VNumber 0)
    \<and> parse_array_loop (Suc n) (CHR ''0'' # d # rest) a = Fail
    \<and> parse_array (Suc n) (CHR ''['' # CHR ''0'' # d # rest) = Fail
    \<and> parse_object_loop (Suc n) (''\"k\":0'' @ d # rest) obj = Fail
    \<and> parse_object (Suc n) (''{\"k\":0'' @ d # rest) = Fail
    \<and> jy_parse (''{\"k\":0'' @ d # rest) = None"
proof -
  note nd = is_digit_not_delim [OF assms]
  note v = parse_value_leading_zero [OF assms]
  have sp: "parse_space (d # rest) = d # rest"
    using nd by (simp add: parse_space_stop)
  have sp0: "parse_space (CHR ''0'' # t) = CHR ''0'' # t" for t
    by (simp add: parse_space_stop isspace_def)
  have al: "parse_array_loop (Suc n) (CHR ''0'' # d # rest) a = Fail" for a n
    using nd by (simp add: parse_array_loop.simps v sp)
  have a: "parse_array (Suc n) (CHR ''['' # CHR ''0'' # d # rest) = Fail" for n
    by (simp add: parse_array.simps sp0 al)
  have key: "parse_string (CHR 0x22 # CHR ''k'' # CHR 0x22 # CHR '':'' # CHR ''0'' # d # rest)
      = Some (CHR '':'' # CHR ''0'' # d # rest, ''k'')"
    by (simp add: parse_string_def)
  have spc: "parse_space (CHR '':'' # t) = CHR '':'' # t" for t
    by (simp add: parse_space_stop isspace_def)
  have spq: "parse_space (CHR 0x22 # t) = CHR 0x22 # t" for t
    by (simp add: parse_space_stop isspace_def)
  have ol: "parse_object_loop (Suc n) (''\"k\":0'' @ d # rest) obj = Fail" for obj n
    using nd by (simp add: parse_object_loop.simps key spc sp0 v sp Let_def split: option.splits)
  have ob: "parse_object (Suc n) (''{\"k\":0'' @ d # rest) = Fail" for n
    using ol [of n "JYObject [] 0"] by (simp add: parse_object.simps spq)
  have "jy_parse (''{\"k\":0'' @ d # rest) = None"
    using ob jy_parse_None_iff by blast
  with parse_number_leading_zero [OF assms] parse_number_minus_leading_zero [OF assms]
    v al a ol ob show ?thesis by simp
qed

theorem leading_zero_stops_after_zero_witness:
  "is_digit (CHR ''1'') \<and> parse_number ''01'' = Some (''1'', 0)
   \<and> parse_array (Suc 0) ''[01]'' = Fail \<and> jy_parse ''{\"k\":01}'' = None"
proof -
  have d: "is_digit (CHR ''1'')" by (simp add: is_digit_def)
  from leading_zero_stops_after_zero [OF d, of "[]" 0]
    leading_zero_stops_after_zero [OF d, of "'']''" 0]
    leading_zero_stops_after_zero [OF d, of "''}''" 0] d
  show ?thesis by simp
qed


text \<open>
  The exponent part where the \<^verbatim>\<open>int\<close> does not overflow: an exponent above 30
  gives 0, an exponent up to 30 multiplies that many times by 10 or by 0.1.
\<close>

lemma to_int32_id: "- (2 ^ 31) \<le> x \<Longrightarrow> x < 2 ^ 31 \<Longrightarrow> to_int32 x = x"
  by (simp add: to_int32_def)

lemma digit_val_range: "is_digit c \<Longrightarrow> 0 \<le> digit_val c \<and> digit_val c \<le> 9"
  by (auto simp: is_digit_def digit_val_def less_eq_char_def)

lemma of_char_digit: "int (of_char c) = digit_val c + 48"
  by (simp add: digit_val_def)

lemma foldl_digits_mono:
  "\<forall>c \<in> set ds. is_digit c \<Longrightarrow> 0 \<le> e \<Longrightarrow> e \<le> foldl (\<lambda>a c. a * 10 + digit_val c) e ds"
proof (induction ds arbitrary: e)
  case Nil
  then show ?case by simp
next
  case (Cons c ds)
  then have d: "0 \<le> digit_val c" using digit_val_range by simp
  with Cons.prems have "e \<le> e * 10 + digit_val c" by simp
  also have "\<dots> \<le> foldl (\<lambda>a c. a * 10 + digit_val c) (e * 10 + digit_val c) ds"
    using Cons.prems d by (intro Cons.IH) simp_all
  finally show ?case by simp
qed

lemma exp_digits_no_overflow:
  assumes "\<forall>c \<in> set ds. is_digit c" and "\<not> is_digit (peek rest)" and "0 \<le> e"
    and "foldl (\<lambda>a c. a * 10 + digit_val c) e ds + 48 < 2 ^ 31"
  shows "exp_digits (ds @ rest) e = (rest, foldl (\<lambda>a c. a * 10 + digit_val c) e ds)"
  using assms
proof (induction ds arbitrary: e)
  case Nil
  then show ?case by (cases rest) simp_all
next
  case (Cons c ds)
  let ?e' = "e * 10 + digit_val c"
  from Cons.prems have c: "is_digit c" and d: "0 \<le> digit_val c" "digit_val c \<le> 9"
    using digit_val_range by simp_all
  with Cons.prems have e': "0 \<le> ?e'" by simp
  from Cons.prems have "?e' \<le> foldl (\<lambda>a c. a * 10 + digit_val c) ?e' ds"
    using e' by (intro foldl_digits_mono) simp_all
  with Cons.prems have small: "?e' + 48 < 2 ^ 31" by simp
  have "to_int32 (to_int32 (to_int32 (e * 10) + int (of_char c)) - int (of_char (CHR ''0''))) = ?e'"
  proof -
    from small d Cons.prems(3) have 1: "to_int32 (e * 10) = e * 10"
      by (intro to_int32_id) simp_all
    from small d Cons.prems(3)
    have 2: "to_int32 (e * 10 + (digit_val c + 48)) = e * 10 + (digit_val c + 48)"
      by (intro to_int32_id) simp_all
    from small e' have 3: "to_int32 ?e' = ?e'" by (intro to_int32_id) simp_all
    have "to_int32 (to_int32 (e * 10 + (digit_val c + 48)) - 48) = to_int32 ?e'"
      by (simp add: 2)
    with 1 3 show ?thesis by (simp add: of_char_digit)
  qed
  with c Cons.IH [of ?e'] Cons.prems e' show ?case by simp
qed

lemma pow10_up_eq: "i \<le> y \<Longrightarrow> pow10_up i y x = x * 10 ^ nat (y - i)"
proof (induction i y x rule: pow10_up.induct)
  case (1 i y x)
  show ?case
  proof (cases "i < y")
    case True
    then have "nat (y - i) = Suc (nat (y - (i + 1)))" by simp
    with True 1 show ?thesis by (subst pow10_up.simps) simp
  next
    case False
    with 1 show ?thesis by (subst pow10_up.simps) simp
  qed
qed

lemma pow10_up_skip: "y \<le> i \<Longrightarrow> pow10_up i y x = x"
  by (subst pow10_up.simps) simp

lemma pow10_down_eq:
  "i \<le> to_int32 (- y) \<Longrightarrow> pow10_down i y x = x * (1 / 10) ^ nat (to_int32 (- y) - i)"
proof (induction i y x rule: pow10_down.induct)
  case (1 i y x)
  show ?case
  proof (cases "i < to_int32 (- y)")
    case True
    then have "nat (to_int32 (- y) - i) = Suc (nat (to_int32 (- y) - (i + 1)))" by simp
    with True 1 show ?thesis by (subst pow10_down.simps) simp
  next
    case False
    with 1 show ?thesis by (subst pow10_down.simps) simp
  qed
qed

lemma pow10_down_skip: "to_int32 (- y) \<le> i \<Longrightarrow> pow10_down i y x = x"
  by (subst pow10_down.simps) simp

lemma pow10_clamp: "30 < \<bar>y\<bar> \<Longrightarrow> \<bar>y\<bar> < 2 ^ 31 \<Longrightarrow> pow10 x y = 0"
  by (auto simp: pow10_def abs_int32_def to_int32_id)

lemma pow10_positive: "0 \<le> y \<Longrightarrow> y \<le> 30 \<Longrightarrow> pow10 x y = x * 10 ^ nat y"
  by (simp add: pow10_def abs_int32_def pow10_up_eq pow10_down_skip to_int32_id)

lemma pow10_negative: "- 30 \<le> y \<Longrightarrow> y < 0 \<Longrightarrow> pow10 x y = x * (1 / 10) ^ nat (- y)"
  by (simp add: pow10_def abs_int32_def pow10_up_skip pow10_down_eq to_int32_id)

lemma number_exp_part_in_range:
  assumes "ds \<noteq> []" and "\<forall>c \<in> set ds. is_digit c" and "\<not> is_digit (peek rest)"
    and "decimal ds + 48 < 2 ^ 31"
  shows "number_exp_part (CHR ''e'' # CHR ''+'' # ds @ rest) v
      = Some (rest, if 30 < decimal ds then 0 else v * 10 ^ nat (decimal ds))"
    and "number_exp_part (CHR ''e'' # CHR ''-'' # ds @ rest) v
      = Some (rest, if 30 < decimal ds then 0 else v * (1 / 10) ^ nat (decimal ds))"
    and "number_exp_part (CHR ''E'' # CHR ''+'' # ds @ rest) v
      = number_exp_part (CHR ''e'' # CHR ''+'' # ds @ rest) v"
    and "number_exp_part (CHR ''E'' # CHR ''-'' # ds @ rest) v
      = number_exp_part (CHR ''e'' # CHR ''-'' # ds @ rest) v"
proof -
  from assms(1,2) have hd: "is_digit (peek (ds @ rest))" by (cases ds) simp_all
  have ed: "exp_digits (ds @ rest) 0 = (rest, decimal ds)"
    unfolding decimal_def using assms by (intro exp_digits_no_overflow) (simp_all add: decimal_def)
  have nn: "0 \<le> decimal ds"
    unfolding decimal_def using assms(2) by (intro foldl_digits_mono) simp_all
  have neg: "to_int32 (decimal ds * (- 1)) = - decimal ds"
    using nn assms(4) by (intro trans [OF to_int32_id]) simp_all
  show "number_exp_part (CHR ''e'' # CHR ''+'' # ds @ rest) v
      = Some (rest, if 30 < decimal ds then 0 else v * 10 ^ nat (decimal ds))"
    using hd ed nn assms(4)
    by (simp add: number_exp_part_def pow10_clamp pow10_positive)
  show "number_exp_part (CHR ''e'' # CHR ''-'' # ds @ rest) v
      = Some (rest, if 30 < decimal ds then 0 else v * (1 / 10) ^ nat (decimal ds))"
  proof (cases "decimal ds = 0")
    case True
    with hd ed show ?thesis by (simp add: number_exp_part_def pow10_positive to_int32_def)
  next
    case False
    with nn have "decimal ds > 0" by simp
    with hd ed neg assms(4) show ?thesis
      by (simp add: number_exp_part_def pow10_clamp pow10_negative)
  qed
  show "number_exp_part (CHR ''E'' # CHR ''+'' # ds @ rest) v
      = number_exp_part (CHR ''e'' # CHR ''+'' # ds @ rest) v"
    by (simp add: number_exp_part_def)
  show "number_exp_part (CHR ''E'' # CHR ''-'' # ds @ rest) v
      = number_exp_part (CHR ''e'' # CHR ''-'' # ds @ rest) v"
    by (simp add: number_exp_part_def)
qed


text \<open>
  C6. The claim is that every exponent of absolute value above 30 gives 0.0. The
  exponent is accumulated in an \<^verbatim>\<open>int\<close> with no overflow check: the ten digits
  \<^verbatim>\<open>4294967296\<close> leave 0 in \<^verbatim>\<open>exp\<close>, so that \<^verbatim>\<open>1e+4294967296\<close> evaluates to 1,
  and \<^verbatim>\<open>1e-2147483648\<close> passes the test \<^verbatim>\<open>abs(y) > 30\<close> and evaluates to 1 as
  well; \<^verbatim>\<open>1e+40\<close> evaluates to 0. (\<open>number_exp_part_in_range\<close> above covers
  the exponents that do not overflow.)
\<close>

theorem exponent_overflow_not_zero:
  "exp_digits ''4294967296'' 0 = ([], 0)
   \<and> parse_number ''1e+4294967296'' = Some ([], 1)
   \<and> parse_number ''1e-2147483648'' = Some ([], 1)
   \<and> parse_number ''1e+40'' = Some ([], 0)"
  by code_simp

section \<open>String literals\<close>

lemma parse_string_loop_plain:
  "set pre \<inter> {CHR 0x22, CHR 0x5C, CHR 0x0A, CHR 0x00} = {} \<Longrightarrow>
     parse_string_loop (pre @ s) buf = parse_string_loop s (buf @ pre)"
  by (induction pre arbitrary: buf) auto

text \<open>
  C7. In the loop of \<^verbatim>\<open>parse_string\<close>, after any bytes stored so far and any run
  of bytes that are not a quote, a backslash, a newline or the terminator: a newline
  or the end of the input before the closing quote is a failure; a backslash with one
  of \<^verbatim>\<open>n r b f t\<close> stores the control character 0x0A, 0x0D, 0x08, 0x0C, 0x09; a
  backslash with a quote, a backslash or a slash stores that byte; a backslash with
  any other byte, or with the end of the input, is a failure. The literal
  with the escape \<^verbatim>\<open>u0041\<close> fails, and \<^verbatim>\<open>"a\nb"\<close> gives the three bytes a, 0x0A, b.
\<close>

theorem parse_string_escapes:
  assumes "set pre \<inter> {CHR 0x22, CHR 0x5C, CHR 0x0A, CHR 0x00} = {}"
  shows "parse_string (CHR 0x22 # s) = parse_string_loop s []
    \<and> parse_string_loop (pre @ CHR 0x0A # s) buf = None
    \<and> parse_string_loop (pre @ CHR 0x00 # s) buf = None
    \<and> parse_string_loop pre buf = None
    \<and> parse_string_loop (pre @ CHR 0x22 # s) buf = Some (s, buf @ pre)
    \<and> parse_string_loop (pre @ CHR 0x5C # CHR ''n'' # s) buf = parse_string_loop s (buf @ pre @ [CHR 0x0A])
    \<and> parse_string_loop (pre @ CHR 0x5C # CHR ''r'' # s) buf = parse_string_loop s (buf @ pre @ [CHR 0x0D])
    \<and> parse_string_loop (pre @ CHR 0x5C # CHR ''b'' # s) buf = parse_string_loop s (buf @ pre @ [CHR 0x08])
    \<and> parse_string_loop (pre @ CHR 0x5C # CHR ''f'' # s) buf = parse_string_loop s (buf @ pre @ [CHR 0x0C])
    \<and> parse_string_loop (pre @ CHR 0x5C # CHR ''t'' # s) buf = parse_string_loop s (buf @ pre @ [CHR 0x09])
    \<and> (e \<in> {CHR 0x22, CHR 0x5C, CHR ''/''} \<longrightarrow>
         parse_string_loop (pre @ CHR 0x5C # e # s) buf = parse_string_loop s (buf @ pre @ [e]))
    \<and> (e \<notin> {CHR ''n'', CHR ''r'', CHR ''b'', CHR ''f'', CHR ''t'', CHR 0x22, CHR 0x5C, CHR ''/''} \<longrightarrow>
         parse_string_loop (pre @ CHR 0x5C # e # s) buf = None)
    \<and> parse_string_loop (pre @ [CHR 0x5C]) buf = None
    \<and> parse_string [CHR 0x22, CHR 0x5C, CHR ''u'', CHR ''0'', CHR ''0'', CHR ''4'', CHR ''1'', CHR 0x22]
         = None
    \<and> parse_string [CHR 0x22, CHR ''a'', CHR 0x5C, CHR ''n'', CHR ''b'', CHR 0x22]
         = Some ([], [CHR ''a'', CHR 0x0A, CHR ''b''])"
proof -
  note p = parse_string_loop_plain [OF assms]
  have "parse_string_loop pre buf = None"
    using p [of "[]" buf] by simp
  moreover have "parse_string [CHR 0x22, CHR 0x5C, CHR ''u'', CHR ''0'', CHR ''0'', CHR ''4'',
      CHR ''1'', CHR 0x22] = None" by code_simp
  moreover have "parse_string [CHR 0x22, CHR ''a'', CHR 0x5C, CHR ''n'', CHR ''b'', CHR 0x22]
         = Some ([], [CHR ''a'', CHR 0x0A, CHR ''b''])" by code_simp
  ultimately show ?thesis
    by (simp add: p parse_string_def)
qed

theorem parse_string_escapes_witness:
  "set ''ab'' \<inter> {CHR 0x22, CHR 0x5C, CHR 0x0A, CHR 0x00} = {}
   \<and> parse_string (CHR 0x22 # ''ab'' @ [CHR 0x0A, CHR ''c'', CHR 0x22]) = None
   \<and> parse_string (CHR 0x22 # ''ab'') = None
   \<and> parse_string (CHR 0x22 # ''ab'' @ [CHR 0x5C, CHR ''t'', CHR 0x22]) = Some ([], ''ab'' @ [CHR 0x09])
   \<and> CHR ''/'' \<in> {CHR 0x22, CHR 0x5C, CHR ''/''}
   \<and> parse_string (CHR 0x22 # ''ab'' @ [CHR 0x5C, CHR ''/'', CHR 0x22]) = Some ([], ''ab/'')
   \<and> CHR ''u'' \<notin> {CHR ''n'', CHR ''r'', CHR ''b'', CHR ''f'', CHR ''t'', CHR 0x22, CHR 0x5C, CHR ''/''}
   \<and> parse_string (CHR 0x22 # ''ab'' @ [CHR 0x5C, CHR ''u'', CHR ''0'', CHR 0x22]) = None"
proof -
  have h: "set ''ab'' \<inter> {CHR 0x22, CHR 0x5C, CHR 0x0A, CHR 0x00} = {}" by simp
  from parse_string_escapes [OF h, of "[CHR ''c'', CHR 0x22]" "[]" "CHR ''/''"]
    parse_string_escapes [OF h, of "''ab'' @ [CHR 0x0A, CHR ''c'', CHR 0x22]" "[]" "CHR ''/''"]
    parse_string_escapes [OF h, of "''ab''" "[]" "CHR ''/''"]
    parse_string_escapes [OF h, of "''ab'' @ [CHR 0x5C, CHR ''t'', CHR 0x22]" "[]" "CHR ''/''"]
    parse_string_escapes [OF h, of "[CHR 0x22]" "[]" "CHR ''/''"]
    parse_string_escapes [OF h, of "''ab'' @ [CHR 0x5C, CHR ''/'', CHR 0x22]" "[]" "CHR ''/''"]
    parse_string_escapes [OF h, of "[CHR ''0'', CHR 0x22]" "[]" "CHR ''u''"]
    parse_string_escapes [OF h, of "''ab'' @ [CHR 0x5C, CHR ''u'', CHR ''0'', CHR 0x22]" "[]" "CHR ''u''"]
  show ?thesis by simp
qed


end
